theory Spec2Isabelle
  imports Main "HOL-Library.AList"
begin

section \<open>Navigation manager: DOM, timers and project navigation\<close>

text \<open>
  The document is the list of its elements in document order; an element is identified by
  its position in that list. Each element carries its tag name, its parent element and its
  class list (a \<open>DOMTokenList\<close>: ordered, without duplicates). The code under study never
  inserts or removes elements, it only edits class lists.
\<close>

type_synonym elem = nat

record element =
  tag :: string
  parent :: "elem option"
  classList :: "string list"

type_synonym document = "element list"

subsection \<open>Configuration constants (\<open>CONFIG\<close>)\<close>

definition TRANSITION_DELAY :: nat where "TRANSITION_DELAY = 200"
definition LAYER_SWITCH_DELAY :: nat where "LAYER_SWITCH_DELAY = 250"
definition LAYER_OPACITY_DELAY :: nat where "LAYER_OPACITY_DELAY = 300"
definition PAPER_SOUND_DELAY :: nat where "PAPER_SOUND_DELAY = 750"

definition ACTIVE :: string where "ACTIVE = ''active''"
definition TO_TOP :: string where "TO_TOP = ''to-top''"
definition TO_BOTTOM :: string where "TO_BOTTOM = ''to-bottom''"
definition OPACITY_0 :: string where "OPACITY_0 = ''opacity-0''"
definition NOT_ACTIVE_LAYER :: string where "NOT_ACTIVE_LAYER = ''not-active-layer''"
definition ACTIVE_LAYER :: string where "ACTIVE_LAYER = ''active-layer''"
definition PORTFOLIO_ITEMS :: string where "PORTFOLIO_ITEMS = ''portfolio-items''"

subsection \<open>Selectors\<close>

text \<open>
  \<open>safeQuerySelector\<close> returns the first element in document order that matches the
  selector, or \<open>null\<close>. Two shapes of selector are used by the navigation code: a single
  class (\<open>.not-active-layer\<close>, \<open>.active-layer\<close>) and
  \<open>.portfolio-items > article:nth-child(n)\<close>. The position counted by \<open>:nth-child\<close> is
  the 1-based position of the element among all element children of its parent.
\<close>

definition first_match :: "(elem \<Rightarrow> bool) \<Rightarrow> document \<Rightarrow> elem option" where
  "first_match P doc = (case filter P [0..<length doc] of [] \<Rightarrow> None | i # _ \<Rightarrow> Some i)"

definition has_class :: "document \<Rightarrow> string \<Rightarrow> elem \<Rightarrow> bool" where
  "has_class doc c i = (c \<in> set (classList (doc ! i)))"

definition child_position :: "document \<Rightarrow> elem \<Rightarrow> nat" where
  "child_position doc i =
     Suc (length (filter (\<lambda>j. parent (doc ! j) = parent (doc ! i)) [0..<i]))"

definition query_class :: "string \<Rightarrow> document \<Rightarrow> elem option" where
  "query_class c doc = first_match (has_class doc c) doc"

definition is_nth_article :: "document \<Rightarrow> int \<Rightarrow> elem \<Rightarrow> bool" where
  "is_nth_article doc n i =
     (tag (doc ! i) = ''article''
      \<and> (case parent (doc ! i) of
            None \<Rightarrow> False
          | Some p \<Rightarrow> p < length doc \<and> has_class doc PORTFOLIO_ITEMS p)
      \<and> int (child_position doc i) = n)"

definition query_article :: "document \<Rightarrow> int \<Rightarrow> elem option" where
  "query_article doc n = first_match (is_nth_article doc n) doc"

subsection \<open>Class list helpers (\<open>addClass\<close>, \<open>removeClass\<close>, \<open>switchLayers\<close>)\<close>

definition addClass :: "elem option \<Rightarrow> string \<Rightarrow> document \<Rightarrow> document" where
  "addClass e c doc =
     (case e of
        None \<Rightarrow> doc
      | Some i \<Rightarrow>
          doc[i := (doc ! i)\<lparr>classList :=
            (if c \<in> set (classList (doc ! i)) then classList (doc ! i)
             else classList (doc ! i) @ [c])\<rparr>])"

definition removeClass :: "elem option \<Rightarrow> string \<Rightarrow> document \<Rightarrow> document" where
  "removeClass e c doc =
     (case e of
        None \<Rightarrow> doc
      | Some i \<Rightarrow> doc[i := (doc ! i)\<lparr>classList := removeAll c (classList (doc ! i))\<rparr>])"

definition switchLayers :: "elem option \<Rightarrow> elem option \<Rightarrow> bool \<Rightarrow> document \<Rightarrow> document" where
  "switchLayers notActiveLayer activeLayer reverse doc =
     (if notActiveLayer = None \<or> activeLayer = None then doc
      else if reverse then
        removeClass activeLayer OPACITY_0
          (removeClass activeLayer ACTIVE_LAYER
            (addClass activeLayer NOT_ACTIVE_LAYER
              (addClass notActiveLayer OPACITY_0
                (addClass notActiveLayer ACTIVE_LAYER
                  (removeClass notActiveLayer NOT_ACTIVE_LAYER doc)))))
      else
        removeClass activeLayer ACTIVE_LAYER
          (addClass activeLayer NOT_ACTIVE_LAYER
            (removeClass notActiveLayer OPACITY_0
              (addClass notActiveLayer ACTIVE_LAYER
                (removeClass notActiveLayer NOT_ACTIVE_LAYER doc)))))"

subsection \<open>The manager\<close>

text \<open>
  The manager holds \<open>currentProjectIndex\<close>. Its collaborators are part of the modelled
  state: the document, the queue of pending timers (due time and callback, in the order
  \<open>setTimeout\<close> was called), the clock, and the calls made so far on the injected audio
  manager. The four callbacks that \<open>navigateToProject\<close> hands to \<open>delayExecution\<close> are
  closures over the elements looked up when the call was made; they are represented by the
  constructors of \<open>action\<close> together with the captured elements.
\<close>

datatype direction = DirTop | DirBottom

datatype audio_call = PlayClick | PlayPaper

datatype action =
    LeaveCurrent "elem option" direction
  | EnterTarget elem
  | SwitchLayers "elem option" "elem option"
  | PaperSound

record NavigationManager =
  currentProjectIndex :: int
  document :: document
  timers :: "(nat \<times> action) list"
  clock :: nat
  audioCalls :: "audio_call list"

definition delayExecution :: "nat \<Rightarrow> action \<Rightarrow> NavigationManager \<Rightarrow> NavigationManager" where
  "delayExecution delay callback s = s\<lparr>timers := timers s @ [(clock s + delay, callback)]\<rparr>"

fun run_action :: "action \<Rightarrow> NavigationManager \<Rightarrow> NavigationManager" where
  "run_action (LeaveCurrent currentProject d) s =
     s\<lparr>document := addClass currentProject (if d = DirBottom then TO_BOTTOM else TO_TOP)
                (removeClass currentProject ACTIVE (document s))\<rparr>"
| "run_action (EnterTarget targetProject) s =
     s\<lparr>document := removeClass (Some targetProject) TO_BOTTOM
                (removeClass (Some targetProject) TO_TOP
                  (addClass (Some targetProject) ACTIVE (document s)))\<rparr>"
| "run_action (SwitchLayers notActiveLayer activeLayer) s =
     s\<lparr>document := switchLayers notActiveLayer activeLayer False (document s)\<rparr>"
| "run_action PaperSound s = s\<lparr>audioCalls := audioCalls s @ [PlayPaper]\<rparr>"

definition navigateToProject :: "int \<Rightarrow> NavigationManager \<Rightarrow> NavigationManager" where
  "navigateToProject targetIndex s0 =
     (let s = s0\<lparr>audioCalls := audioCalls s0 @ [PlayClick]\<rparr>;
          notActiveLayer = query_class NOT_ACTIVE_LAYER (document s);
          activeLayer = query_class ACTIVE_LAYER (document s);
          currentProject = query_article (document s) (currentProjectIndex s);
          targetProject = query_article (document s) targetIndex
      in case targetProject of
           None \<Rightarrow> s
         | Some target \<Rightarrow>
             (let d = (if targetIndex > currentProjectIndex s then DirBottom else DirTop);
                  s1 = delayExecution TRANSITION_DELAY (LeaveCurrent currentProject d) s;
                  s2 = delayExecution LAYER_SWITCH_DELAY (EnterTarget target) s1;
                  s3 = delayExecution LAYER_OPACITY_DELAY
                         (SwitchLayers notActiveLayer activeLayer) s2;
                  s4 = delayExecution PAPER_SOUND_DELAY PaperSound s3
              in s4\<lparr>currentProjectIndex := targetIndex\<rparr>))"

definition navigateToPreviousProject :: "NavigationManager \<Rightarrow> NavigationManager" where
  "navigateToPreviousProject s = navigateToProject (currentProjectIndex s - 1) s"

definition navigateToNextProject :: "NavigationManager \<Rightarrow> NavigationManager" where
  "navigateToNextProject s = navigateToProject (currentProjectIndex s + 1) s"

text \<open>
  The event loop runs a pending timer: the first one in the queue among those with the
  least due time. Nothing else executes a scheduled callback.
\<close>

definition next_due :: "(nat \<times> action) list \<Rightarrow> nat option" where
  "next_due ts =
     (case ts of
        [] \<Rightarrow> None
      | _ # _ \<Rightarrow>
          (case filter (\<lambda>i. fst (ts ! i) = Min (set (map fst ts))) [0..<length ts] of
             [] \<Rightarrow> None
           | i # _ \<Rightarrow> Some i))"

definition fire_next :: "NavigationManager \<Rightarrow> NavigationManager" where
  "fire_next s =
     (case next_due (timers s) of
        None \<Rightarrow> s
      | Some i \<Rightarrow>
          run_action (snd (timers s ! i))
            (s\<lparr>timers := take i (timers s) @ drop (Suc i) (timers s),
               clock := max (clock s) (fst (timers s ! i))\<rparr>))"

text \<open>A page with a grid and three project articles, the first of them shown.\<close>

definition page :: document where
  "page =
     [\<lparr>tag = ''body'', parent = None, classList = []\<rparr>,
      \<lparr>tag = ''div'', parent = Some 0, classList = [''layer'', ''active-layer'']\<rparr>,
      \<lparr>tag = ''div'', parent = Some 0, classList = [''layer'', ''not-active-layer'']\<rparr>,
      \<lparr>tag = ''section'', parent = Some 2, classList = [''portfolio-items'']\<rparr>,
      \<lparr>tag = ''article'', parent = Some 3, classList = [''active'']\<rparr>,
      \<lparr>tag = ''article'', parent = Some 3, classList = [''to-top'']\<rparr>,
      \<lparr>tag = ''article'', parent = Some 3, classList = []\<rparr>]"

definition viewing :: "int \<Rightarrow> NavigationManager" where
  "viewing i = \<lparr>currentProjectIndex = i, document = page, timers = [], clock = 0, audioCalls = []\<rparr>"

section \<open>JavaScript values and the object heap\<close>

text \<open>
  Values are the primitives and references to plain objects, such as the state object and
  the objects that \<open>set\<close> creates. Numbers are modelled by the integers together with
  \<open>NaN\<close>, the one number that is not strictly equal to itself. An object is the ordered
  list of its own data properties; the heap is the list of all
  objects and a reference is a position in it, so that two references are strictly equal
  exactly when they denote the same object. A reference outside the heap denotes no object.

  Every object and every primitive also has members it was never given: those inherited
  from \<open>Object.prototype\<close> (\<open>__proto__\<close>, \<open>constructor\<close>, \<open>toString\<close>, ...) and those
  built into strings, numbers and booleans (\<open>length\<close>, the indices of a string, \<open>charAt\<close>,
  ...). Which names these are belongs to the runtime and is a parameter \<open>rt\<close> of the model:
  the names of the members that every plain object inherits, and the names of the further
  members of primitives. An own property hides an inherited member of the same name. What
  the code does once it reads or writes such a member itself depends on the member (a
  method, an accessor with a setter, a read-only number), so there the run stops with
  \<open>Outside\<close>: the model makes no statement about it. A run that exceeds its fuel stops
  with \<open>Unfinished\<close>.
\<close>

type_synonym addr = nat

datatype jsval = JUndefined | JNull | JBool bool | JNum int | JNaN | JStr string | JRef addr

datatype error = TypeError | Thrown jsval

datatype stop = Throws error | Outside | Unfinished

type_synonym object = "(string \<times> jsval) list"

type_synonym js_heap = "object list"

record runtime =
  object_member :: "string \<Rightarrow> bool"
  primitive_member :: "string \<Rightarrow> bool"

definition member_of_primitive :: "runtime \<Rightarrow> string \<Rightarrow> bool" where
  "member_of_primitive rt k = (object_member rt k \<or> primitive_member rt k)"

definition strict_eq :: "jsval \<Rightarrow> jsval \<Rightarrow> bool" where
  "strict_eq a b = (a = b \<and> a \<noteq> JNaN)"

definition truthy :: "jsval \<Rightarrow> bool" where
  "truthy v =
     (case v of
        JUndefined \<Rightarrow> False | JNull \<Rightarrow> False | JBool b \<Rightarrow> b | JNum n \<Rightarrow> n \<noteq> 0
      | JNaN \<Rightarrow> False | JStr s \<Rightarrow> s \<noteq> [] | JRef a \<Rightarrow> True)"

definition is_object :: "js_heap \<Rightarrow> jsval \<Rightarrow> bool" where
  "is_object h v = (case v of JRef a \<Rightarrow> a < length h | _ \<Rightarrow> False)"

text \<open>\<open>k in target\<close>: a \<open>TypeError\<close> unless the right operand is an object; own and
  inherited members count.\<close>

definition has_property :: "runtime \<Rightarrow> js_heap \<Rightarrow> string \<Rightarrow> jsval \<Rightarrow> stop + bool" where
  "has_property rt h k target =
     (case target of
        JRef a \<Rightarrow>
          if a < length h then Inr (map_of (h ! a) k \<noteq> None \<or> object_member rt k)
          else Inl (Throws TypeError)
      | _ \<Rightarrow> Inl (Throws TypeError))"

text \<open>\<open>target[k]\<close>: a \<open>TypeError\<close> on \<open>undefined\<close> and \<open>null\<close>; the own property of an
  object; \<open>undefined\<close> when there is no member of that name.\<close>

definition get_property :: "runtime \<Rightarrow> js_heap \<Rightarrow> jsval \<Rightarrow> string \<Rightarrow> stop + jsval" where
  "get_property rt h target k =
     (case target of
        JUndefined \<Rightarrow> Inl (Throws TypeError)
      | JNull \<Rightarrow> Inl (Throws TypeError)
      | JRef a \<Rightarrow>
          if a < length h
          then (case map_of (h ! a) k of
                  Some v \<Rightarrow> Inr v
                | None \<Rightarrow> if object_member rt k then Inl Outside else Inr JUndefined)
          else Inr JUndefined
      | _ \<Rightarrow> if member_of_primitive rt k then Inl Outside else Inr JUndefined)"

text \<open>\<open>target[k] = v\<close> in strict code (class bodies and modules are strict): a
  \<open>TypeError\<close> on \<open>undefined\<close> and \<open>null\<close>; an own property of an object is written,
  and created when there is no member of that name; a primitive has no property of its own
  and cannot be given one.\<close>

definition put_property ::
  "runtime \<Rightarrow> js_heap \<Rightarrow> jsval \<Rightarrow> string \<Rightarrow> jsval \<Rightarrow> stop + js_heap" where
  "put_property rt h target k v =
     (case target of
        JUndefined \<Rightarrow> Inl (Throws TypeError)
      | JNull \<Rightarrow> Inl (Throws TypeError)
      | JRef a \<Rightarrow>
          if a < length h
          then (if map_of (h ! a) k = None \<and> object_member rt k then Inl Outside
                else Inr (h[a := AList.update k v (h ! a)]))
          else Inl (Throws TypeError)
      | _ \<Rightarrow> if member_of_primitive rt k then Inl Outside else Inl (Throws TypeError))"

text \<open>\<open>key.split('.')\<close>: never empty; the empty string splits into one empty segment.\<close>

fun split_dot :: "string \<Rightarrow> string list" where
  "split_dot [] = [[]]"
| "split_dot (c # cs) =
     (if c = CHR ''.'' then [] # split_dot cs
      else (case split_dot cs of [] \<Rightarrow> [[c]] | w # ws \<Rightarrow> (c # w) # ws))"

text \<open>Segments that are no member names of objects, and paths none of whose segments is
  a member name of objects or of primitives.\<close>

definition no_members :: "runtime \<Rightarrow> string list \<Rightarrow> bool" where
  "no_members rt ks = list_all (\<lambda>k. \<not> object_member rt k) ks"

definition plain_path :: "runtime \<Rightarrow> string \<Rightarrow> bool" where
  "plain_path rt key = list_all (\<lambda>k. \<not> member_of_primitive rt k) (split_dot key)"

section \<open>Calls on the shared logger\<close>

text \<open>
  The state manager and the performance monitor report through the logger singleton. Their
  models return the logger calls they make, in order: the level of the method called, the
  message, and the second argument.
\<close>

datatype LogLevel = DEBUG | INFO | WARN | ERROR

datatype log_arg = NoData | Value jsval | OldNew jsval jsval | Caught error

type_synonym logger_call = "LogLevel \<times> string \<times> log_arg"

section \<open>State manager\<close>

text \<open>
  An observer is a function object, identified by its reference. What it does when it is
  called with \<open>(newValue, oldValue)\<close> is a parameter \<open>beh\<close> of the model: a list of
  commands, run in order. An observer may call back into the manager (\<open>subscribe\<close>, an
  unsubscribe function, \<open>set\<close>) and it may throw, which ends its run; an exception that a
  \<open>set\<close> it calls throws ends its run as well.

  \<open>this.observers\<close> is a \<open>Map\<close> from keys to \<open>Set\<close>s of observers. A \<open>Set\<close> is the list
  of its entries in insertion order, in which \<open>delete\<close> leaves an empty slot (\<open>None\<close>) and
  \<open>add\<close> appends a value that is not there: this is the list that \<open>forEach\<close> walks by
  position, looking at its current contents at every step, so that what an observer adds
  or deletes during a notification changes who is visited in the same notification.
\<close>

type_synonym callback = nat

datatype cmd =
    CSubscribe string callback
  | CUnsubscribe string callback
  | CSet string jsval
  | CThrow jsval

type_synonym behaviour = "callback \<Rightarrow> jsval \<Rightarrow> jsval \<Rightarrow> cmd list"

datatype effect = Invoke callback jsval jsval | Logger logger_call

record StateManager =
  heap :: js_heap
  state :: addr
  observers :: "(string \<times> callback option list) list"

text \<open>The manager as the constructor leaves it: the state object with its nested
  \<open>animations\<close> object, and no observers.\<close>

definition StateManager_new :: StateManager where
  "StateManager_new =
     \<lparr>heap =
        [[(''currentView'', JStr ''home''), (''currentProjectIndex'', JNum 0),
          (''soundEnabled'', JBool True), (''theme'', JStr ''dark''),
          (''isLoading'', JBool True), (''animations'', JRef 1)],
         [(''starsActive'', JBool False), (''portfolio3DActive'', JBool False)]],
      state = 0,
      observers = []\<rparr>"

definition set_add :: "'a \<Rightarrow> 'a option list \<Rightarrow> 'a option list" where
  "set_add x es = (if Some x \<in> set es then es else es @ [Some x])"

definition set_delete :: "'a \<Rightarrow> 'a option list \<Rightarrow> 'a option list" where
  "set_delete x es = map (\<lambda>e. if e = Some x then None else e) es"

fun present :: "'a option list \<Rightarrow> 'a list" where
  "present [] = []"
| "present (None # es) = present es"
| "present (Some x # es) = x # present es"

text \<open>The entries of the \<open>Set\<close> of a key (none when there is no \<open>Set\<close>), and the observers
  subscribed to the key: the values of the entries, in order.\<close>

definition entries_of :: "string \<Rightarrow> StateManager \<Rightarrow> callback option list" where
  "entries_of key s = (case map_of (observers s) key of None \<Rightarrow> [] | Some es \<Rightarrow> es)"

definition subscribed :: "string \<Rightarrow> StateManager \<Rightarrow> callback list" where
  "subscribed key s = present (entries_of key s)"

definition subscribe :: "string \<Rightarrow> callback \<Rightarrow> StateManager \<Rightarrow> effect list \<times> StateManager" where
  "subscribe key cb s =
     (let obs1 = (if map_of (observers s) key = None then AList.update key [] (observers s)
                  else observers s);
          obs2 = (case map_of obs1 key of
                    None \<Rightarrow> obs1
                  | Some es \<Rightarrow> AList.update key (set_add cb es) obs1)
      in ([Logger (DEBUG, ''Subscribed to state key: '' @ key, NoData)],
          s\<lparr>observers := obs2\<rparr>))"

text \<open>The function returned by \<open>subscribe(key, callback)\<close>.\<close>

definition unsubscribe :: "string \<Rightarrow> callback \<Rightarrow> StateManager \<Rightarrow> effect list \<times> StateManager" where
  "unsubscribe key cb s =
     ([Logger (DEBUG, ''Unsubscribed from state key: '' @ key, NoData)],
      s\<lparr>observers :=
          (case map_of (observers s) key of
             None \<Rightarrow> observers s
           | Some es \<Rightarrow> AList.update key (set_delete cb es) (observers s))\<rparr>)"

text \<open>\<open>get\<close>: the loop stops at the first \<open>undefined\<close>; \<open>?.\<close> guards \<open>null\<close> and
  \<open>undefined\<close>.\<close>

fun get_loop :: "runtime \<Rightarrow> js_heap \<Rightarrow> jsval \<Rightarrow> string list \<Rightarrow> stop + jsval" where
  "get_loop rt h v [] = Inr v"
| "get_loop rt h v (k # ks) =
     (case (if v = JUndefined \<or> v = JNull then Inr JUndefined else get_property rt h v k) of
        Inl e \<Rightarrow> Inl e
      | Inr v' \<Rightarrow> if v' = JUndefined then Inr v' else get_loop rt h v' ks)"

definition StateManager_get :: "runtime \<Rightarrow> string \<Rightarrow> StateManager \<Rightarrow> stop + jsval" where
  "StateManager_get rt key s = get_loop rt (heap s) (JRef (state s)) (split_dot key)"

text \<open>The loop of \<open>set\<close> over the segments before the last: it returns the object reached
  and the heap, in which the missing intermediate objects have been created.\<close>

fun walk :: "runtime \<Rightarrow> string list \<Rightarrow> jsval \<Rightarrow> js_heap \<Rightarrow> (stop + jsval) \<times> js_heap" where
  "walk rt [] target h = (Inr target, h)"
| "walk rt (k # ks) target h =
     (case has_property rt h k target of
        Inl e \<Rightarrow> (Inl e, h)
      | Inr found \<Rightarrow>
          (case (if found then Inr h
                 else put_property rt (h @ [[]]) target k (JRef (length h))) of
             Inl e \<Rightarrow> (Inl e, h)
           | Inr h1 \<Rightarrow>
               (case get_property rt h1 target k of
                  Inl e \<Rightarrow> (Inl e, h1)
                | Inr t \<Rightarrow> walk rt ks t h1)))"

text \<open>
  \<open>set\<close>, \<open>notify\<close> and the run of an observer call each other. \<open>notify_from n i\<close> is the
  \<open>forEach\<close> of \<open>notify\<close> from position \<open>i\<close> of the \<open>Set\<close> on, with every call of an
  observer wrapped in \<open>try\<close>/\<open>catch\<close>, so that \<open>notify\<close> itself is \<open>notify_from n 0\<close>.
  Each of its steps uses up one unit of the fuel \<open>n\<close>, since an observer can keep the
  loop going for ever. When no observer calls back into the manager, the loop needs one
  unit for every entry of the \<open>Set\<close> and one more. Every function returns how the run
  ended, the observer calls and logger calls it made, in order, and the manager.
\<close>

type_synonym run = "(stop + unit) \<times> effect list \<times> StateManager"

fun StateManager_set ::
      "runtime \<Rightarrow> behaviour \<Rightarrow> nat \<Rightarrow> string \<Rightarrow> jsval \<Rightarrow> StateManager \<Rightarrow> run"
  and notify_from ::
      "runtime \<Rightarrow> behaviour \<Rightarrow> nat \<Rightarrow> nat \<Rightarrow> string \<Rightarrow> jsval \<Rightarrow> jsval \<Rightarrow> StateManager \<Rightarrow> run"
  and run_observer ::
      "runtime \<Rightarrow> behaviour \<Rightarrow> nat \<Rightarrow> cmd list \<Rightarrow> StateManager \<Rightarrow> run"
where
  "StateManager_set rt beh n key v s =
     (case walk rt (butlast (split_dot key)) (JRef (state s)) (heap s) of
        (Inl e, h1) \<Rightarrow> (Inl e, [], s\<lparr>heap := h1\<rparr>)
      | (Inr target, h1) \<Rightarrow>
          (case get_property rt h1 target (last (split_dot key)) of
             Inl e \<Rightarrow> (Inl e, [], s\<lparr>heap := h1\<rparr>)
           | Inr oldValue \<Rightarrow>
               if strict_eq oldValue v then (Inr (), [], s\<lparr>heap := h1\<rparr>)
               else
                 (case put_property rt h1 target (last (split_dot key)) v of
                    Inl e \<Rightarrow> (Inl e, [], s\<lparr>heap := h1\<rparr>)
                  | Inr h2 \<Rightarrow>
                      (case notify_from rt beh n 0 key v oldValue (s\<lparr>heap := h2\<rparr>) of
                         (r, es, s') \<Rightarrow>
                           (r, Logger (DEBUG, ''State updated: '' @ key, OldNew oldValue v) # es,
                            s')))))"
| "notify_from rt beh 0 i key newValue oldValue s = (Inl Unfinished, [], s)"
| "notify_from rt beh (Suc n) i key newValue oldValue s =
     (case map_of (observers s) key of
        None \<Rightarrow> (Inr (), [], s)
      | Some entries \<Rightarrow>
          if length entries \<le> i then (Inr (), [], s)
          else
            (case entries ! i of
               None \<Rightarrow> notify_from rt beh n (Suc i) key newValue oldValue s
             | Some cb \<Rightarrow>
                 (case run_observer rt beh n (beh cb newValue oldValue) s of
                    (Inr u, es, s1) \<Rightarrow>
                      (case notify_from rt beh n (Suc i) key newValue oldValue s1 of
                         (r, es', s2) \<Rightarrow> (r, Invoke cb newValue oldValue # es @ es', s2))
                  | (Inl (Throws e), es, s1) \<Rightarrow>
                      (case notify_from rt beh n (Suc i) key newValue oldValue s1 of
                         (r, es', s2) \<Rightarrow>
                           (r,
                            Invoke cb newValue oldValue # es
                              @ Logger (ERROR, ''Error in state observer for '' @ key, Caught e)
                              # es',
                            s2))
                  | (Inl Outside, es, s1) \<Rightarrow>
                      (Inl Outside, Invoke cb newValue oldValue # es, s1)
                  | (Inl Unfinished, es, s1) \<Rightarrow>
                      (Inl Unfinished, Invoke cb newValue oldValue # es, s1))))"
| "run_observer rt beh n [] s = (Inr (), [], s)"
| "run_observer rt beh n (CThrow e # cs) s = (Inl (Throws (Thrown e)), [], s)"
| "run_observer rt beh n (CSubscribe key cb # cs) s =
     (case subscribe key cb s of
        (es, s1) \<Rightarrow>
          (case run_observer rt beh n cs s1 of (r, es', s2) \<Rightarrow> (r, es @ es', s2)))"
| "run_observer rt beh n (CUnsubscribe key cb # cs) s =
     (case unsubscribe key cb s of
        (es, s1) \<Rightarrow>
          (case run_observer rt beh n cs s1 of (r, es', s2) \<Rightarrow> (r, es @ es', s2)))"
| "run_observer rt beh n (CSet key v # cs) s =
     (case StateManager_set rt beh n key v s of
        (Inl e, es, s1) \<Rightarrow> (Inl e, es, s1)
      | (Inr u, es, s1) \<Rightarrow>
          (case run_observer rt beh n cs s1 of (r, es', s2) \<Rightarrow> (r, es @ es', s2)))"

text \<open>What a caller observes of a run: which observers ran, with which arguments, and
  which errors were logged.\<close>

fun invocations :: "effect list \<Rightarrow> (callback \<times> jsval \<times> jsval) list" where
  "invocations [] = []"
| "invocations (Invoke cb n old # es) = (cb, n, old) # invocations es"
| "invocations (Logger c # es) = invocations es"

fun logged_errors :: "effect list \<Rightarrow> (string \<times> log_arg) list" where
  "logged_errors [] = []"
| "logged_errors (Logger (ERROR, m, a) # es) = (m, a) # logged_errors es"
| "logged_errors (e # es) = logged_errors es"

definition effects_of :: "run \<Rightarrow> effect list" where
  "effects_of r = fst (snd r)"

definition manager_of :: "run \<Rightarrow> StateManager" where
  "manager_of r = snd (snd r)"

text \<open>The object that holds the last segment of a path, when the path leads to an object
  (the value of \<open>target\<close> after the loop of \<open>set\<close>), and the value \<open>set\<close> reads
  there as \<open>oldValue\<close>.\<close>

definition container :: "runtime \<Rightarrow> string \<Rightarrow> StateManager \<Rightarrow> addr option" where
  "container rt key s =
     (case walk rt (butlast (split_dot key)) (JRef (state s)) (heap s) of
        (Inr (JRef a), h1) \<Rightarrow> if a < length h1 then Some a else None
      | _ \<Rightarrow> None)"

definition old_value :: "runtime \<Rightarrow> string \<Rightarrow> StateManager \<Rightarrow> stop + jsval" where
  "old_value rt key s =
     (case walk rt (butlast (split_dot key)) (JRef (state s)) (heap s) of
        (Inl e, h1) \<Rightarrow> Inl e
      | (Inr target, h1) \<Rightarrow> get_property rt h1 target (last (split_dot key)))"

text \<open>A value lacks a property when it is no object or an object without that property.\<close>

definition lacks :: "js_heap \<Rightarrow> jsval \<Rightarrow> string \<Rightarrow> bool" where
  "lacks h v k =
     (case v of
        JRef a \<Rightarrow> if a < length h then map_of (h ! a) k = None else True
      | _ \<Rightarrow> True)"

text \<open>Following the segments from a value, every segment that is present holds an object
  (and so does the starting value).\<close>

fun objects_along :: "js_heap \<Rightarrow> jsval \<Rightarrow> string list \<Rightarrow> bool" where
  "objects_along h v [] = is_object h v"
| "objects_along h v (k # ks) =
     (case v of
        JRef a \<Rightarrow>
          a < length h \<and>
          (case map_of (h ! a) k of None \<Rightarrow> True | Some w \<Rightarrow> objects_along h w ks)
      | _ \<Rightarrow> False)"

text \<open>An observer is passive, for the arguments it is called with, when it does not call
  back into the manager: it returns or it throws.\<close>

fun calls_back :: "cmd \<Rightarrow> bool" where
  "calls_back (CThrow e) = False"
| "calls_back c = True"

definition passive_observers :: "behaviour \<Rightarrow> jsval \<Rightarrow> jsval \<Rightarrow> callback list \<Rightarrow> bool" where
  "passive_observers beh newValue oldValue cbs =
     list_all (\<lambda>cb. \<not> list_ex calls_back (beh cb newValue oldValue)) cbs"

text \<open>The value a passive observer throws, and the values thrown by a list of passive
  observers called with the same arguments.\<close>

definition throw_of :: "cmd list \<Rightarrow> jsval option" where
  "throw_of cs = (case cs of CThrow e # _ \<Rightarrow> Some e | _ \<Rightarrow> None)"

definition thrown :: "behaviour \<Rightarrow> jsval \<Rightarrow> jsval \<Rightarrow> callback list \<Rightarrow> jsval list" where
  "thrown beh newValue oldValue cbs =
     List.map_filter (\<lambda>cb. throw_of (beh cb newValue oldValue)) cbs"

text \<open>What the notification of one passive observer leaves in the run: its call, and its
  error in the log when it throws.\<close>

definition call_passive :: "behaviour \<Rightarrow> string \<Rightarrow> jsval \<Rightarrow> jsval \<Rightarrow> callback \<Rightarrow> effect list" where
  "call_passive beh key newValue oldValue cb =
     Invoke cb newValue oldValue #
       (case throw_of (beh cb newValue oldValue) of
          None \<Rightarrow> []
        | Some e \<Rightarrow>
            [Logger (ERROR, ''Error in state observer for '' @ key, Caught (Thrown e))])"

text \<open>Consecutive \<open>set\<close> calls on one path; a call that throws does not stop the
  caller from making the next one. The result is the list of the observer invocations.\<close>

fun set_many ::
  "runtime \<Rightarrow> behaviour \<Rightarrow> nat \<Rightarrow> string \<Rightarrow> jsval list \<Rightarrow> StateManager \<Rightarrow>
     (callback \<times> jsval \<times> jsval) list" where
  "set_many rt beh n key [] s = []"
| "set_many rt beh n key (v # vs) s =
     invocations (effects_of (StateManager_set rt beh n key v s))
       @ set_many rt beh n key vs (manager_of (StateManager_set rt beh n key v s))"

text \<open>Every \<open>Set\<close> of observers holds each observer once.\<close>

definition observers_ok :: "StateManager \<Rightarrow> bool" where
  "observers_ok s = list_all (\<lambda>(key, es). distinct (present es)) (observers s)"

text \<open>
  Examples. A runtime: the members of \<open>Object.prototype\<close>, of strings, numbers and
  booleans in a current browser, and the indices of a string. Observers: \<open>quiet\<close> ones
  that return; \<open>faulty\<close>, where observer 1 throws; \<open>meddling\<close>, where observer 1
  unsubscribes observer 2 from \<open>theme\<close>; \<open>shuffling\<close>, where observer 2 unsubscribes
  observer 1 from \<open>theme\<close> and subscribes it again. And a fresh manager with observers 1
  and 2 subscribed to a key, in this order.
\<close>

definition object_names :: "string list" where
  "object_names =
     [''__proto__'', ''constructor'', ''hasOwnProperty'', ''isPrototypeOf'',
      ''propertyIsEnumerable'', ''toLocaleString'', ''toString'', ''valueOf'',
      ''__defineGetter__'', ''__defineSetter__'', ''__lookupGetter__'', ''__lookupSetter__'']"

definition primitive_names :: "string list" where
  "primitive_names =
     [''length'', ''at'', ''charAt'', ''charCodeAt'', ''codePointAt'', ''concat'', ''endsWith'',
      ''includes'', ''indexOf'', ''isWellFormed'', ''lastIndexOf'', ''localeCompare'',
      ''match'', ''matchAll'', ''normalize'', ''padEnd'', ''padStart'', ''repeat'', ''replace'',
      ''replaceAll'', ''search'', ''slice'', ''split'', ''startsWith'', ''substr'',
      ''substring'', ''toLocaleLowerCase'', ''toLocaleUpperCase'', ''toLowerCase'',
      ''toUpperCase'', ''toWellFormed'', ''trim'', ''trimEnd'', ''trimLeft'', ''trimRight'',
      ''trimStart'', ''anchor'', ''big'', ''blink'', ''bold'', ''fixed'', ''fontcolor'',
      ''fontsize'', ''italics'', ''link'', ''small'', ''strike'', ''sub'', ''sup'',
      ''toExponential'', ''toFixed'', ''toPrecision'']"

definition browser_runtime :: runtime where
  "browser_runtime =
     \<lparr>object_member = (\<lambda>k. k \<in> set object_names),
      primitive_member =
        (\<lambda>k. k \<in> set primitive_names
           \<or> (k \<noteq> [] \<and> list_all (\<lambda>c. c \<in> set ''0123456789'') k))\<rparr>"

definition quiet :: behaviour where
  "quiet cb newValue oldValue = []"

definition faulty :: behaviour where
  "faulty cb newValue oldValue = (if cb = 1 then [CThrow (JStr ''Observer error'')] else [])"

definition meddling :: behaviour where
  "meddling cb newValue oldValue = (if cb = 1 then [CUnsubscribe ''theme'' 2] else [])"

definition shuffling :: behaviour where
  "shuffling cb newValue oldValue =
     (if cb = 2 then [CUnsubscribe ''theme'' 1, CSubscribe ''theme'' 1] else [])"

definition observed :: "string \<Rightarrow> StateManager" where
  "observed key = snd (subscribe key 2 (snd (subscribe key 1 StateManager_new)))"

section \<open>Logger\<close>

text \<open>
  A log entry is an object created by \<open>formatLog\<close>; \<open>this.logs\<close> is a reference to an
  array whose elements are references to entries. Entries and arrays live in two heaps, a
  reference being a position in its heap, because \<open>getLogs\<close> hands out a new array that
  holds the same entry objects as the internal one. What the browser answers during one
  call is an input: the time printed by \<open>new Date().toISOString()\<close> and
  \<open>window.location.href\<close>. The console calls are recorded without the decoration of the
  message. The \<open>data\<close> of an entry written by \<open>error\<close> is a new object with the two
  properties \<open>error\<close> and \<open>stack\<close>; how the \<open>message\<close> and \<open>stack\<close> properties of the
  value passed to \<open>error\<close> read is a parameter \<open>prop\<close> of the model.
\<close>

datatype log_data = Data jsval | ErrorData jsval jsval

record log_entry =
  timestamp :: string
  level :: LogLevel
  message :: string
  data :: log_data
  url :: string

datatype console_method = ConsoleLog | ConsoleInfo | ConsoleWarn | ConsoleError | ConsoleClear

type_synonym console_call = "console_method \<times> string \<times> string \<times> jsval"

record browser =
  now :: string
  href :: string

record Logger =
  entries :: "log_entry list"
  arrays :: "addr list list"
  logs :: addr
  maxLogs :: nat
  isDevelopment :: bool
  console :: "console_call list"

definition Logger_new :: "string \<Rightarrow> Logger" where
  "Logger_new hostname =
     \<lparr>entries = [], arrays = [[]], logs = 0, maxLogs = 100,
      isDevelopment = (hostname = ''localhost'' \<or> hostname = ''127.0.0.1''),
      console = []\<rparr>"

definition formatLog :: "browser \<Rightarrow> LogLevel \<Rightarrow> string \<Rightarrow> log_data \<Rightarrow> Logger \<Rightarrow> addr \<times> Logger" where
  "formatLog b lvl msg d lg =
     (length (entries lg),
      lg\<lparr>entries := entries lg @
           [\<lparr>timestamp = now b, level = lvl, message = msg, data = d, url = href b\<rparr>]\<rparr>)"

definition addToHistory :: "addr \<Rightarrow> Logger \<Rightarrow> Logger" where
  "addToHistory logEntry lg =
     (let pushed = (arrays lg ! logs lg) @ [logEntry] in
      lg\<lparr>arrays := (arrays lg)[logs lg :=
           (if length pushed > maxLogs lg then tl pushed else pushed)]\<rparr>)"

text \<open>A missing argument takes the default \<open>null\<close>; \<open>data || ''\<close> is what is printed.\<close>

definition default_null :: "jsval \<Rightarrow> jsval" where
  "default_null d = (if d = JUndefined then JNull else d)"

definition or_empty :: "jsval \<Rightarrow> jsval" where
  "or_empty d = (if truthy d then d else JStr [])"

definition Logger_debug :: "browser \<Rightarrow> string \<Rightarrow> jsval \<Rightarrow> Logger \<Rightarrow> Logger" where
  "Logger_debug b msg d0 lg =
     (let d = default_null d0;
          (logEntry, lg1) = formatLog b DEBUG msg (Data d) lg;
          lg2 = addToHistory logEntry lg1
      in if isDevelopment lg2
         then lg2\<lparr>console := console lg2 @ [(ConsoleLog, now b, msg, or_empty d)]\<rparr>
         else lg2)"

definition Logger_info :: "browser \<Rightarrow> string \<Rightarrow> jsval \<Rightarrow> Logger \<Rightarrow> Logger" where
  "Logger_info b msg d0 lg =
     (let d = default_null d0;
          (logEntry, lg1) = formatLog b INFO msg (Data d) lg;
          lg2 = addToHistory logEntry lg1
      in if isDevelopment lg2
         then lg2\<lparr>console := console lg2 @ [(ConsoleInfo, now b, msg, or_empty d)]\<rparr>
         else lg2)"

definition Logger_warn :: "browser \<Rightarrow> string \<Rightarrow> jsval \<Rightarrow> Logger \<Rightarrow> Logger" where
  "Logger_warn b msg d0 lg =
     (let d = default_null d0;
          (logEntry, lg1) = formatLog b WARN msg (Data d) lg;
          lg2 = addToHistory logEntry lg1
      in lg2\<lparr>console := console lg2 @ [(ConsoleWarn, now b, msg, or_empty d)]\<rparr>)"

definition error_data :: "(jsval \<Rightarrow> string \<Rightarrow> jsval) \<Rightarrow> jsval \<Rightarrow> log_data" where
  "error_data prop err =
     (let m = (if err = JNull \<or> err = JUndefined then JUndefined else prop err ''message'');
          st = (if err = JNull \<or> err = JUndefined then JUndefined else prop err ''stack'')
      in ErrorData (if truthy m then m else err) st)"

definition Logger_error ::
  "(jsval \<Rightarrow> string \<Rightarrow> jsval) \<Rightarrow> browser \<Rightarrow> string \<Rightarrow> jsval \<Rightarrow> Logger \<Rightarrow> Logger" where
  "Logger_error prop b msg e0 lg =
     (let err = default_null e0;
          (logEntry, lg1) = formatLog b ERROR msg (error_data prop err) lg;
          lg2 = addToHistory logEntry lg1
      in lg2\<lparr>console := console lg2 @ [(ConsoleError, now b, msg, or_empty err)]\<rparr>)"

definition Logger_getLogs :: "Logger \<Rightarrow> addr \<times> Logger" where
  "Logger_getLogs lg =
     (length (arrays lg), lg\<lparr>arrays := arrays lg @ [arrays lg ! logs lg]\<rparr>)"

definition Logger_getLogsByLevel :: "LogLevel \<Rightarrow> Logger \<Rightarrow> addr \<times> Logger" where
  "Logger_getLogsByLevel lvl lg =
     (length (arrays lg),
      lg\<lparr>arrays := arrays lg @
           [filter (\<lambda>e. level (entries lg ! e) = lvl) (arrays lg ! logs lg)]\<rparr>)"

definition Logger_clear :: "Logger \<Rightarrow> Logger" where
  "Logger_clear lg =
     (let lg1 = lg\<lparr>arrays := arrays lg @ [[]], logs := length (arrays lg)\<rparr>
      in if isDevelopment lg1
         then lg1\<lparr>console := console lg1 @ [(ConsoleClear, [], [], JUndefined)]\<rparr>
         else lg1)"

text \<open>The log history: the entries the internal array refers to, in its order.\<close>

definition history :: "Logger \<Rightarrow> log_entry list" where
  "history lg = map (\<lambda>e. entries lg ! e) (arrays lg ! logs lg)"

text \<open>Sequences of logging calls, each with what the browser answers during it.\<close>

datatype logging_call =
    CallDebug string jsval
  | CallInfo string jsval
  | CallWarn string jsval
  | CallError string jsval

fun Logger_call ::
  "(jsval \<Rightarrow> string \<Rightarrow> jsval) \<Rightarrow> Logger \<Rightarrow> browser \<times> logging_call \<Rightarrow> Logger" where
  "Logger_call prop lg (b, CallDebug msg d) = Logger_debug b msg d lg"
| "Logger_call prop lg (b, CallInfo msg d) = Logger_info b msg d lg"
| "Logger_call prop lg (b, CallWarn msg d) = Logger_warn b msg d lg"
| "Logger_call prop lg (b, CallError msg e) = Logger_error prop b msg e lg"

definition Logger_calls ::
  "(jsval \<Rightarrow> string \<Rightarrow> jsval) \<Rightarrow> (browser \<times> logging_call) list \<Rightarrow> Logger \<Rightarrow> Logger" where
  "Logger_calls prop cs lg = foldl (Logger_call prop) lg cs"

text \<open>The entry object that a logging call creates (the argument it gives to
  \<open>addToHistory\<close>), written out call by call.\<close>

fun entry_of :: "(jsval \<Rightarrow> string \<Rightarrow> jsval) \<Rightarrow> browser \<times> logging_call \<Rightarrow> log_entry" where
  "entry_of prop (b, CallDebug msg d) =
     \<lparr>timestamp = now b, level = DEBUG, message = msg, data = Data (default_null d), url = href b\<rparr>"
| "entry_of prop (b, CallInfo msg d) =
     \<lparr>timestamp = now b, level = INFO, message = msg, data = Data (default_null d), url = href b\<rparr>"
| "entry_of prop (b, CallWarn msg d) =
     \<lparr>timestamp = now b, level = WARN, message = msg, data = Data (default_null d), url = href b\<rparr>"
| "entry_of prop (b, CallError msg e) =
     \<lparr>timestamp = now b, level = ERROR, message = msg,
      data = error_data prop (default_null e), url = href b\<rparr>"

text \<open>
  What a caller can do with an array it was given: put any elements in it (assign to an
  index, \<open>push\<close>, \<open>pop\<close>, \<open>splice\<close>, set \<open>length\<close>), or assign to the fields of one of
  the entries it finds there.
\<close>

definition caller_sets_array :: "addr \<Rightarrow> addr list \<Rightarrow> Logger \<Rightarrow> Logger" where
  "caller_sets_array r xs lg = lg\<lparr>arrays := (arrays lg)[r := xs]\<rparr>"

definition caller_sets_entry :: "addr \<Rightarrow> log_entry \<Rightarrow> Logger \<Rightarrow> Logger" where
  "caller_sets_entry e new lg = lg\<lparr>entries := (entries lg)[e := new]\<rparr>"

text \<open>Examples: the browser's answers at some moment, and a logger after one \<open>info\<close> call.\<close>

definition at_noon :: browser where
  "at_noon = \<lparr>now = ''2024-01-01T12:00:00.000Z'', href = ''https://example.org/''\<rparr>"

definition one_info :: Logger where
  "one_info = Logger_info at_noon ''Test'' JUndefined (Logger_new ''example.org'')"

text \<open>Further examples: values whose \<open>message\<close> and \<open>stack\<close> properties read as
  \<open>undefined\<close>, and \<open>n\<close> \<open>info\<close> calls with messages of growing length.\<close>

definition plain :: "jsval \<Rightarrow> string \<Rightarrow> jsval" where
  "plain v k = JUndefined"

definition numbered_call :: "nat \<Rightarrow> browser \<times> logging_call" where
  "numbered_call i = (at_noon, CallInfo (replicate i CHR ''x'') JUndefined)"

definition numbered_calls :: "nat \<Rightarrow> (browser \<times> logging_call) list" where
  "numbered_calls n = map numbered_call [0..<n]"

section \<open>Performance monitor\<close>

text \<open>
  \<open>this.metrics\<close> and \<open>this.marks\<close> are \<open>Map\<close>s keyed by the name of the operation. A
  duration is a floating point number of milliseconds; its type is left open. What the
  browser does during one call is an input: the value of \<open>Date.now()\<close>, whether
  \<open>performance.mark\<close> throws when \<open>startMeasure\<close> calls it, the outcome of the sequence
  \<open>performance.mark\<close>, \<open>performance.measure\<close>, \<open>getEntriesByName(...)[0].duration\<close> in
  \<open>endMeasure\<close> (a thrown value, or the duration), and how \<open>toFixed(2)\<close> prints a duration.
  Both methods return the calls they make on the logger.
\<close>

record mark_data =
  startMark :: string
  startTime :: nat

type_synonym 'd measurement = "'d \<times> nat"

record 'd PerformanceMonitor =
  metrics :: "(string \<times> 'd measurement list) list"
  marks :: "(string \<times> mark_data) list"
  isSupported :: bool

record 'd performance_api =
  date_now :: nat
  mark_throws :: "jsval option"
  measure_outcome :: "jsval + 'd"
  toFixed2 :: "'d \<Rightarrow> string"

definition PerformanceMonitor_new :: "bool \<Rightarrow> 'd PerformanceMonitor" where
  "PerformanceMonitor_new supported = \<lparr>metrics = [], marks = [], isSupported = supported\<rparr>"

definition startMeasure ::
  "'d performance_api \<Rightarrow> string \<Rightarrow> 'd PerformanceMonitor \<Rightarrow> logger_call list \<times> 'd PerformanceMonitor" where
  "startMeasure api name pm =
     (if \<not> isSupported pm then ([], pm)
      else
        (case mark_throws api of
           Some err \<Rightarrow> ([(WARN, ''Failed to start performance measure: '' @ name, Value err)], pm)
         | None \<Rightarrow>
             ([(DEBUG, ''Performance measure started: '' @ name, NoData)],
              pm\<lparr>marks := AList.update name
                    \<lparr>startMark = name @ ''-start'', startTime = date_now api\<rparr> (marks pm)\<rparr>)))"

definition endMeasure ::
  "'d performance_api \<Rightarrow> string \<Rightarrow> 'd PerformanceMonitor \<Rightarrow>
     'd option \<times> logger_call list \<times> 'd PerformanceMonitor" where
  "endMeasure api name pm =
     (if \<not> isSupported pm then (None, [], pm)
      else
        (case map_of (marks pm) name of
           None \<Rightarrow> (None, [(WARN, ''No start mark found for: '' @ name, NoData)], pm)
         | Some markData \<Rightarrow>
             (case measure_outcome api of
                Inl err \<Rightarrow>
                  (None, [(WARN, ''Failed to end performance measure: '' @ name, Value err)], pm)
              | Inr d \<Rightarrow>
                  (Some d,
                   [(DEBUG, ''Performance measure completed: '' @ name @ '' ('' @ toFixed2 api d
                       @ ''ms)'', NoData)],
                   pm\<lparr>metrics := AList.update name
                          ((case map_of (metrics pm) name of None \<Rightarrow> [] | Some ms \<Rightarrow> ms)
                             @ [(d, date_now api)])
                          (metrics pm),
                      marks := AList.delete name (marks pm)\<rparr>))))"

text \<open>The durations recorded for a name (\<open>this.metrics.get(name)\<close>, none when missing).\<close>

definition recorded :: "string \<Rightarrow> 'd PerformanceMonitor \<Rightarrow> 'd measurement list" where
  "recorded name pm = (case map_of (metrics pm) name of None \<Rightarrow> [] | Some ms \<Rightarrow> ms)"

text \<open>An example of what the browser does: the measurement succeeds with 5 ms.\<close>

definition five_ms :: "nat performance_api" where
  "five_ms = \<lparr>date_now = 1000, mark_throws = None, measure_outcome = Inr 5,
              toFixed2 = (\<lambda>d. ''5.00'')\<rparr>"

section \<open>Properties of the navigation manager\<close>

lemma page_articles:
  "query_article page 0 = None" "query_article page 1 = Some 4"
  "query_article page 2 = Some 5" "query_article page 3 = Some 6"
  "query_article page 4 = None" "query_article page (- 1) = None"
  by (simp_all add: query_article_def first_match_def is_nth_article_def child_position_def
      has_class_def PORTFOLIO_ITEMS_def page_def upt_rec nth_Cons')

lemma page_layers:
  "query_class NOT_ACTIVE_LAYER page = Some 2" "query_class ACTIVE_LAYER page = Some 1"
  by (simp_all add: query_class_def first_match_def has_class_def NOT_ACTIVE_LAYER_def
      ACTIVE_LAYER_def page_def upt_rec nth_Cons')

text \<open>
  Claim C2. A call of \<open>navigateToProject(t)\<close>, made directly or through
  \<open>navigateToNextProject\<close> or \<open>navigateToPreviousProject\<close>, for which no element
  matches \<open>.portfolio-items > article:nth-child(t)\<close> leaves \<open>currentProjectIndex\<close> and
  the whole document (hence every class list) as they were and schedules no timer.
\<close>

theorem navigateToProject_missing_target_unchanged:
  "(query_article (document s) t = None \<longrightarrow>
      currentProjectIndex (navigateToProject t s) = currentProjectIndex s
      \<and> document (navigateToProject t s) = document s
      \<and> timers (navigateToProject t s) = timers s
      \<and> clock (navigateToProject t s) = clock s)
   \<and> (query_article (document s) (currentProjectIndex s + 1) = None \<longrightarrow>
      currentProjectIndex (navigateToNextProject s) = currentProjectIndex s
      \<and> document (navigateToNextProject s) = document s
      \<and> timers (navigateToNextProject s) = timers s
      \<and> clock (navigateToNextProject s) = clock s)
   \<and> (query_article (document s) (currentProjectIndex s - 1) = None \<longrightarrow>
      currentProjectIndex (navigateToPreviousProject s) = currentProjectIndex s
      \<and> document (navigateToPreviousProject s) = document s
      \<and> timers (navigateToPreviousProject s) = timers s
      \<and> clock (navigateToPreviousProject s) = clock s)"
  by (simp add: navigateToProject_def navigateToNextProject_def navigateToPreviousProject_def)

theorem navigateToProject_missing_target_unchanged_witness:
  "query_article (document (viewing 3)) 7 = None
   \<and> query_article (document (viewing 3)) (currentProjectIndex (viewing 3) + 1) = None
   \<and> query_article (document (viewing 1)) (currentProjectIndex (viewing 1) - 1) = None
   \<and> currentProjectIndex (navigateToProject 7 (viewing 3)) = 3
   \<and> document (navigateToProject 7 (viewing 3)) = page
   \<and> timers (navigateToProject 7 (viewing 3)) = []
   \<and> currentProjectIndex (navigateToNextProject (viewing 3)) = 3
   \<and> document (navigateToNextProject (viewing 3)) = page
   \<and> timers (navigateToNextProject (viewing 3)) = []
   \<and> currentProjectIndex (navigateToPreviousProject (viewing 1)) = 1
   \<and> document (navigateToPreviousProject (viewing 1)) = page
   \<and> timers (navigateToPreviousProject (viewing 1)) = []"
proof -
  have q: "query_article page 7 = None"
    by (simp add: query_article_def first_match_def is_nth_article_def child_position_def
      has_class_def PORTFOLIO_ITEMS_def page_def upt_rec nth_Cons')
  have a: "query_article (document (viewing 3)) 7 = None"
    using q by (simp add: viewing_def)
  have b: "query_article (document (viewing 3)) (currentProjectIndex (viewing 3) + 1) = None"
    using page_articles by (simp add: viewing_def)
  have c: "query_article (document (viewing 1)) (currentProjectIndex (viewing 1) - 1) = None"
    using page_articles by (simp add: viewing_def)
  from a b c
    navigateToProject_missing_target_unchanged [of "viewing 3" 7]
    navigateToProject_missing_target_unchanged [of "viewing 1" 7]
  show ?thesis by (simp add: viewing_def)
qed

lemma navigateToProject_found:
  assumes "query_article (document s) t = Some target"
  shows "navigateToProject t s =
     s\<lparr>audioCalls := audioCalls s @ [PlayClick],
       timers := timers s @
         [(clock s + TRANSITION_DELAY,
            LeaveCurrent (query_article (document s) (currentProjectIndex s))
              (if t > currentProjectIndex s then DirBottom else DirTop)),
          (clock s + LAYER_SWITCH_DELAY, EnterTarget target),
          (clock s + LAYER_OPACITY_DELAY,
            SwitchLayers (query_class NOT_ACTIVE_LAYER (document s))
              (query_class ACTIVE_LAYER (document s))),
          (clock s + PAPER_SOUND_DELAY, PaperSound)],
       currentProjectIndex := t\<rparr>"
  using assms by (simp add: navigateToProject_def delayExecution_def Let_def)

text \<open>
  Claim C3. When the target element exists, \<open>navigateToProject(t)\<close> returns with
  \<open>currentProjectIndex = t\<close> while the document is still unchanged and its four callbacks
  are still pending after the timers that were there before. Hence two
  \<open>navigateToNextProject\<close> calls made before any timer fires, from index \<open>i\<close>, target
  \<open>i + 1\<close> and then \<open>i + 2\<close>: the second call takes the element at \<open>i + 1\<close> as the
  current project and the element at \<open>i + 2\<close> as its target.
\<close>

theorem navigateToProject_index_updated_at_initiation:
  "(query_article (document s) t = Some target \<longrightarrow>
      currentProjectIndex (navigateToProject t s) = t
      \<and> document (navigateToProject t s) = document s
      \<and> length (timers (navigateToProject t s)) = length (timers s) + 4
      \<and> take (length (timers s)) (timers (navigateToProject t s)) = timers s)
   \<and> (query_article (document s) (currentProjectIndex s + 1) = Some e1
      \<and> query_article (document s) (currentProjectIndex s + 2) = Some e2 \<longrightarrow>
      currentProjectIndex (navigateToNextProject s) = currentProjectIndex s + 1
      \<and> currentProjectIndex (navigateToNextProject (navigateToNextProject s))
          = currentProjectIndex s + 2
      \<and> document (navigateToNextProject (navigateToNextProject s)) = document s
      \<and> drop (length (timers s)) (timers (navigateToNextProject (navigateToNextProject s))) =
          [(clock s + TRANSITION_DELAY,
             LeaveCurrent (query_article (document s) (currentProjectIndex s)) DirBottom),
           (clock s + LAYER_SWITCH_DELAY, EnterTarget e1),
           (clock s + LAYER_OPACITY_DELAY,
             SwitchLayers (query_class NOT_ACTIVE_LAYER (document s))
               (query_class ACTIVE_LAYER (document s))),
           (clock s + PAPER_SOUND_DELAY, PaperSound),
           (clock s + TRANSITION_DELAY, LeaveCurrent (Some e1) DirBottom),
           (clock s + LAYER_SWITCH_DELAY, EnterTarget e2),
           (clock s + LAYER_OPACITY_DELAY,
             SwitchLayers (query_class NOT_ACTIVE_LAYER (document s))
               (query_class ACTIVE_LAYER (document s))),
           (clock s + PAPER_SOUND_DELAY, PaperSound)])"
proof (intro conjI impI)
  assume t: "query_article (document s) t = Some target"
  note f = navigateToProject_found [OF t]
  show "currentProjectIndex (navigateToProject t s) = t" by (simp add: f)
  show "document (navigateToProject t s) = document s" by (simp add: f)
  show "length (timers (navigateToProject t s)) = length (timers s) + 4" by (simp add: f)
  show "take (length (timers s)) (timers (navigateToProject t s)) = timers s" by (simp add: f)
next
  assume a: "query_article (document s) (currentProjectIndex s + 1) = Some e1
      \<and> query_article (document s) (currentProjectIndex s + 2) = Some e2"
  define s1 where "s1 = navigateToNextProject s"
  have f1: "s1 = s\<lparr>audioCalls := audioCalls s @ [PlayClick],
       timers := timers s @
         [(clock s + TRANSITION_DELAY,
            LeaveCurrent (query_article (document s) (currentProjectIndex s)) DirBottom),
          (clock s + LAYER_SWITCH_DELAY, EnterTarget e1),
          (clock s + LAYER_OPACITY_DELAY,
            SwitchLayers (query_class NOT_ACTIVE_LAYER (document s))
              (query_class ACTIVE_LAYER (document s))),
          (clock s + PAPER_SOUND_DELAY, PaperSound)],
       currentProjectIndex := currentProjectIndex s + 1\<rparr>"
    unfolding s1_def navigateToNextProject_def
    using navigateToProject_found [of s "currentProjectIndex s + 1" e1] a by simp
  have q2: "query_article (document s1) (currentProjectIndex s1 + 1) = Some e2"
    using a by (simp add: f1 add.commute)
  have q1: "query_article (document s1) (currentProjectIndex s1) = Some e1"
    using a by (simp add: f1)
  have i1: "currentProjectIndex s1 + 1 = currentProjectIndex s + 2"
    by (simp add: f1)
  have f2: "navigateToNextProject s1 = navigateToProject (currentProjectIndex s + 2) s1"
    by (simp only: navigateToNextProject_def i1)
  have q2': "query_article (document s1) (currentProjectIndex s + 2) = Some e2"
    using a by (simp add: f1)
  note g = navigateToProject_found [OF q2']
  show "currentProjectIndex (navigateToNextProject s) = currentProjectIndex s + 1"
    using f1 by (simp add: s1_def)
  show "currentProjectIndex (navigateToNextProject (navigateToNextProject s))
          = currentProjectIndex s + 2"
    unfolding s1_def [symmetric] f2 g by simp
  show "document (navigateToNextProject (navigateToNextProject s)) = document s"
    unfolding s1_def [symmetric] f2 g by (simp add: f1)
  show "drop (length (timers s)) (timers (navigateToNextProject (navigateToNextProject s))) =
          [(clock s + TRANSITION_DELAY,
             LeaveCurrent (query_article (document s) (currentProjectIndex s)) DirBottom),
           (clock s + LAYER_SWITCH_DELAY, EnterTarget e1),
           (clock s + LAYER_OPACITY_DELAY,
             SwitchLayers (query_class NOT_ACTIVE_LAYER (document s))
               (query_class ACTIVE_LAYER (document s))),
           (clock s + PAPER_SOUND_DELAY, PaperSound),
           (clock s + TRANSITION_DELAY, LeaveCurrent (Some e1) DirBottom),
           (clock s + LAYER_SWITCH_DELAY, EnterTarget e2),
           (clock s + LAYER_OPACITY_DELAY,
             SwitchLayers (query_class NOT_ACTIVE_LAYER (document s))
               (query_class ACTIVE_LAYER (document s))),
           (clock s + PAPER_SOUND_DELAY, PaperSound)]"
    unfolding s1_def [symmetric] f2 g using q1 by (simp add: f1)
qed

theorem navigateToProject_index_updated_at_initiation_witness:
  "query_article (document (viewing 1)) 3 = Some 6
   \<and> query_article (document (viewing 1)) (currentProjectIndex (viewing 1) + 1) = Some 5
   \<and> query_article (document (viewing 1)) (currentProjectIndex (viewing 1) + 2) = Some 6
   \<and> currentProjectIndex (navigateToProject 3 (viewing 1)) = 3
   \<and> document (navigateToProject 3 (viewing 1)) = page
   \<and> length (timers (navigateToProject 3 (viewing 1))) = 4
   \<and> currentProjectIndex (navigateToNextProject (viewing 1)) = 2
   \<and> currentProjectIndex (navigateToNextProject (navigateToNextProject (viewing 1))) = 3
   \<and> document (navigateToNextProject (navigateToNextProject (viewing 1))) = page
   \<and> timers (navigateToNextProject (navigateToNextProject (viewing 1))) =
        [(200, LeaveCurrent (Some 4) DirBottom), (250, EnterTarget 5),
         (300, SwitchLayers (Some 2) (Some 1)), (750, PaperSound),
         (200, LeaveCurrent (Some 5) DirBottom), (250, EnterTarget 6),
         (300, SwitchLayers (Some 2) (Some 1)), (750, PaperSound)]"
proof -
  have a: "query_article (document (viewing 1)) 3 = Some 6"
    using page_articles by (simp add: viewing_def)
  have b: "query_article (document (viewing 1)) (currentProjectIndex (viewing 1) + 1) = Some 5"
    using page_articles by (simp add: viewing_def)
  have c: "query_article (document (viewing 1)) (currentProjectIndex (viewing 1) + 2) = Some 6"
    using page_articles by (simp add: viewing_def)
  have d: "query_article (document (viewing 1)) (currentProjectIndex (viewing 1)) = Some 4"
    using page_articles by (simp add: viewing_def)
  have l: "query_class NOT_ACTIVE_LAYER (document (viewing 1)) = Some 2"
      "query_class ACTIVE_LAYER (document (viewing 1)) = Some 1"
    using page_layers by (simp_all add: viewing_def)
  have v: "document (viewing 1) = page" "timers (viewing 1) = []" "clock (viewing 1) = 0"
    "currentProjectIndex (viewing 1) = 1"
    by (simp_all add: viewing_def)
  from a b c d l navigateToProject_index_updated_at_initiation [of "viewing 1" 3 6 5 6]
  show ?thesis
    by (simp add: v TRANSITION_DELAY_def LAYER_SWITCH_DELAY_def LAYER_OPACITY_DELAY_def
        PAPER_SOUND_DELAY_def)
qed

text \<open>
  Claim C10. When the target element does not exist, the state after
  \<open>navigateToProject(t)\<close> is the state before with exactly one more call recorded on the
  audio manager, \<open>playClick\<close>: the cue is requested before the target is looked up, and
  nothing else changes.
\<close>

theorem navigateToProject_missing_target_still_clicks:
  "query_article (document s) t = None \<Longrightarrow>
     navigateToProject t s = s\<lparr>audioCalls := audioCalls s @ [PlayClick]\<rparr>"
  by (simp add: navigateToProject_def)

theorem navigateToProject_missing_target_still_clicks_witness:
  "query_article (document (viewing 3)) 4 = None
   \<and> navigateToProject 4 (viewing 3) =
       \<lparr>currentProjectIndex = 3, document = page, timers = [], clock = 0,
        audioCalls = [PlayClick]\<rparr>"
proof -
  have a: "query_article (document (viewing 3)) 4 = None"
    using page_articles by (simp add: viewing_def)
  from a navigateToProject_missing_target_still_clicks [OF a]
  show ?thesis by (simp add: viewing_def)
qed

section \<open>Properties of the state manager\<close>

lemma split_dot_nonempty: "split_dot s \<noteq> []"
  by (induction s) (auto split: list.splits)

lemma get_loop_total:
  "list_all (\<lambda>k. \<not> member_of_primitive rt k) ks \<Longrightarrow> \<exists>w. get_loop rt h v ks = Inr w"
proof (induction ks arbitrary: v)
  case Nil
  show ?case by simp
next
  case (Cons k ks)
  from Cons.prems have k: "\<not> member_of_primitive rt k" by simp
  then have "\<exists>w. (if v = JUndefined \<or> v = JNull then Inr JUndefined else get_property rt h v k) = Inr w"
    by (cases v) (simp_all add: get_property_def member_of_primitive_def split: option.splits)
  then obtain w where w: "(if v = JUndefined \<or> v = JNull then Inr JUndefined else get_property rt h v k) = Inr w"
    by blast
  show ?case
  proof (cases "w = JUndefined")
    case True
    with w show ?thesis by simp
  next
    case False
    from Cons.prems have "list_all (\<lambda>k. \<not> member_of_primitive rt k) ks" by simp
    from Cons.IH [OF this, of w] obtain u where "get_loop rt h w ks = Inr u" by blast
    with w False show ?thesis by simp
  qed
qed

lemma opt_read_lacks:
  "lacks h w k \<Longrightarrow> \<not> member_of_primitive rt k \<Longrightarrow>
   (if w = JUndefined \<or> w = JNull then Inr JUndefined else get_property rt h w k) = Inr JUndefined"
  by (cases w) (simp_all add: lacks_def get_property_def member_of_primitive_def split: if_splits)

lemma get_loop_absent:
  "get_loop rt h v ks = Inr w \<Longrightarrow> lacks h w k \<Longrightarrow> \<not> member_of_primitive rt k \<Longrightarrow>
   get_loop rt h v (ks @ k # ks') = Inr JUndefined"
proof (induction ks arbitrary: v)
  case Nil
  then show ?case using opt_read_lacks [of h w k rt] by simp
next
  case (Cons k1 ks)
  then show ?case
    by (auto split: sum.splits if_splits)
qed

lemma walk_Cons_ref:
  "a < length h \<Longrightarrow> \<not> object_member rt k \<Longrightarrow>
   walk rt (k # ks) (JRef a) h =
     (case map_of (h ! a) k of
        Some w \<Rightarrow> walk rt ks w h
      | None \<Rightarrow>
          walk rt ks (JRef (length h)) ((h @ [[]])[a := AList.update k (JRef (length h)) (h ! a)]))"
  by (simp add: has_property_def put_property_def get_property_def nth_append update_conv'
      split: option.splits)

lemma walk_Cons_own:
  "a < length h \<Longrightarrow> map_of (h ! a) k = Some w \<Longrightarrow> walk rt (k # ks) (JRef a) h = walk rt ks w h"
  by (simp add: has_property_def get_property_def)

lemma walk_Cons_inherited:
  "a < length h \<Longrightarrow> map_of (h ! a) k = None \<Longrightarrow> object_member rt k \<Longrightarrow>
   walk rt (k # ks) (JRef a) h = (Inl Outside, h)"
  by (simp add: has_property_def get_property_def)

lemma walk_Cons_nonobj:
  "\<not> is_object h t \<Longrightarrow> walk rt (k # ks) t h = (Inl (Throws TypeError), h)"
  by (cases t) (simp_all add: has_property_def is_object_def)

declare walk.simps(2) [simp del]

lemma walk_Cons_cases:
  obtains (nonobj) "\<not> is_object h t" "walk rt (k # ks) t h = (Inl (Throws TypeError), h)"
  | (own) a w where "t = JRef a" "a < length h" "map_of (h ! a) k = Some w"
      "walk rt (k # ks) t h = walk rt ks w h"
  | (inherited) a where "t = JRef a" "a < length h" "map_of (h ! a) k = None"
      "object_member rt k" "walk rt (k # ks) t h = (Inl Outside, h)"
  | (created) a where "t = JRef a" "a < length h" "map_of (h ! a) k = None"
      "\<not> object_member rt k"
      "walk rt (k # ks) t h =
         walk rt ks (JRef (length h)) ((h @ [[]])[a := AList.update k (JRef (length h)) (h ! a)])"
proof (cases "is_object h t")
  case False
  then show ?thesis using nonobj walk_Cons_nonobj by blast
next
  case True
  then obtain a where t: "t = JRef a" and a: "a < length h"
    by (cases t) (simp_all add: is_object_def)
  show ?thesis
  proof (cases "map_of (h ! a) k")
    case (Some w)
    with t a own walk_Cons_own show ?thesis by blast
  next
    case None
    show ?thesis
    proof (cases "object_member rt k")
      case True
      with None t a inherited walk_Cons_inherited show ?thesis by blast
    next
      case False
      with None t a created [of a] walk_Cons_ref [OF a False, of ks] show ?thesis by simp
    qed
  qed
qed

lemma walk_length: "walk rt ks t h = (r, h') \<Longrightarrow> length h \<le> length h'"
proof (induction ks arbitrary: t h)
  case Nil
  then show ?case by simp
next
  case (Cons k ks)
  show ?case
  proof (cases rule: walk_Cons_cases [of h t rt k ks])
    case nonobj
    with Cons.prems show ?thesis by simp
  next
    case (own a w)
    with Cons.prems have "walk rt ks w h = (r, h')" by simp
    from Cons.IH [OF this] show ?thesis .
  next
    case (inherited a)
    with Cons.prems show ?thesis by simp
  next
    case (created a)
    with Cons.prems
    have "walk rt ks (JRef (length h)) ((h @ [[]])[a := AList.update k (JRef (length h)) (h ! a)]) = (r, h')"
      by simp
    from Cons.IH [OF this] show ?thesis by simp
  qed
qed

lemma walk_preserves:
  "walk rt ks t h = (r, h') \<Longrightarrow> b < length h \<Longrightarrow> map_of (h ! b) k = Some x \<Longrightarrow>
   map_of (h' ! b) k = Some x"
proof (induction ks arbitrary: t h)
  case Nil
  then show ?case by simp
next
  case (Cons k1 ks)
  show ?case
  proof (cases rule: walk_Cons_cases [of h t rt k1 ks])
    case nonobj
    with Cons.prems show ?thesis by simp
  next
    case (own a w)
    with Cons.prems have "walk rt ks w h = (r, h')" by simp
    from Cons.IH [OF this Cons.prems(2,3)] show ?thesis .
  next
    case (inherited a)
    with Cons.prems show ?thesis by simp
  next
    case (created a)
    let ?h1 = "(h @ [[]])[a := AList.update k1 (JRef (length h)) (h ! a)]"
    from created Cons.prems have w: "walk rt ks (JRef (length h)) ?h1 = (r, h')" by simp
    have b1: "b < length ?h1" using Cons.prems by simp
    have c1: "map_of (?h1 ! b) k = Some x"
      using Cons.prems created
      by (cases "b = a") (auto simp add: nth_list_update nth_append update_conv')
    from Cons.IH [OF w b1 c1] show ?thesis .
  qed
qed

lemma walk_idem: "walk rt ks t h = (Inr r, h') \<Longrightarrow> walk rt ks t h' = (Inr r, h')"
proof (induction ks arbitrary: t h)
  case Nil
  then show ?case by simp
next
  case (Cons k1 ks)
  show ?case
  proof (cases rule: walk_Cons_cases [of h t rt k1 ks])
    case nonobj
    with Cons.prems show ?thesis by simp
  next
    case (own a w)
    with Cons.prems have w: "walk rt ks w h = (Inr r, h')" by simp
    from walk_length [OF w] own have a': "a < length h'" by simp
    from walk_preserves [OF w own(2,3)] have "map_of (h' ! a) k1 = Some w" .
    with Cons.IH [OF w] own(1) a' show ?thesis by (simp add: walk_Cons_own)
  next
    case (inherited a)
    with Cons.prems show ?thesis by simp
  next
    case (created a)
    let ?h1 = "(h @ [[]])[a := AList.update k1 (JRef (length h)) (h ! a)]"
    from created Cons.prems have w: "walk rt ks (JRef (length h)) ?h1 = (Inr r, h')" by simp
    from walk_length [OF w] created have a': "a < length h'" by simp
    have "map_of (?h1 ! a) k1 = Some (JRef (length h))"
      using created by (simp add: update_conv')
    from walk_preserves [OF w _ this] created
    have "map_of (h' ! a) k1 = Some (JRef (length h))" by simp
    with Cons.IH [OF w] created(1) a' show ?thesis by (simp add: walk_Cons_own)
  qed
qed

lemma objects_along_empty:
  "a < length h \<Longrightarrow> h ! a = [] \<Longrightarrow> objects_along h (JRef a) ks"
  by (cases ks) (simp_all add: is_object_def)

lemma walk_objects_along:
  "objects_along h v ks \<Longrightarrow> no_members rt ks \<Longrightarrow>
   \<exists>a h'. walk rt ks v h = (Inr (JRef a), h') \<and> a < length h'"
proof (induction ks arbitrary: v h)
  case Nil
  then show ?case by (cases v) (simp_all add: is_object_def)
next
  case (Cons k ks)
  from Cons.prems obtain a where v: "v = JRef a" and a: "a < length h"
    by (cases v) simp_all
  from Cons.prems have k: "\<not> object_member rt k" and ks: "no_members rt ks"
    by (simp_all add: no_members_def)
  show ?case
  proof (cases "map_of (h ! a) k")
    case None
    let ?h1 = "(h @ [[]])[a := AList.update k (JRef (length h)) (h ! a)]"
    have "objects_along ?h1 (JRef (length h)) ks"
      using a by (intro objects_along_empty) (simp_all add: nth_list_update nth_append)
    from Cons.IH [OF this ks] None v a k show ?thesis by (simp add: walk_Cons_ref)
  next
    case (Some w)
    with Cons.prems v a have "objects_along h w ks" by simp
    from Cons.IH [OF this ks] Some v a show ?thesis by (simp add: walk_Cons_own)
  qed
qed

lemma get_loop_append:
  "get_loop rt h v ks = Inr w \<Longrightarrow> w \<noteq> JUndefined \<Longrightarrow>
   get_loop rt h v (ks @ ks2) = get_loop rt h w ks2"
  by (induction ks arbitrary: v) (auto split: sum.splits if_splits)

lemma get_loop_ref_Cons:
  "a < length h \<Longrightarrow> map_of (h ! a) k = Some (JRef n) \<Longrightarrow>
   get_loop rt h (JRef a) (k # ks) = get_loop rt h (JRef n) ks"
  by (simp add: get_property_def)

lemma get_loop_last: "get_loop rt h (JRef a) [k] = get_property rt h (JRef a) k"
  by (simp split: sum.splits)

lemma get_property_own:
  "a < length h \<Longrightarrow> map_of (h ! a) k = Some v \<Longrightarrow> get_property rt h (JRef a) k = Inr v"
  by (simp add: get_property_def)

lemma get_property_update:
  "a < length h \<Longrightarrow> get_property rt (h[a := AList.update k v (h ! a)]) (JRef a) k = Inr v"
  by (simp add: get_property_def update_conv')

lemma get_property_frame:
  "k \<noteq> k' \<Longrightarrow>
   get_property rt (h[a := AList.update k v (h ! a)]) t k' = get_property rt h t k'"
proof (cases t)
  case (JRef b)
  assume "k \<noteq> k'"
  then show ?thesis
    by (cases "b = a"; cases "a < length h") (simp_all add: JRef get_property_def update_conv')
qed (simp_all add: get_property_def)

lemma get_loop_frame:
  "k \<notin> set ks \<Longrightarrow>
   get_loop rt (h[a := AList.update k v (h ! a)]) t ks = get_loop rt h t ks"
  by (induction ks arbitrary: t) (auto simp add: get_property_frame split: sum.splits)

lemma walk_reads_back:
  "walk rt ks t h = (Inr r, h1) \<Longrightarrow> is_object h1 r \<Longrightarrow> get_loop rt h1 t ks = Inr r"
proof (induction ks arbitrary: t h)
  case Nil
  then show ?case by simp
next
  case (Cons k ks)
  have step: "get_loop rt h1 (JRef a) (k # ks) = Inr r"
    if w: "walk rt ks w h2 = (Inr r, h1)" and a: "a < length h2"
      and cell: "map_of (h2 ! a) k = Some w" for a w h2
  proof -
    from walk_length [OF w] a have a1: "a < length h1" by simp
    from walk_preserves [OF w a cell] have c1: "map_of (h1 ! a) k = Some w" .
    have "w \<noteq> JUndefined"
    proof
      assume u: "w = JUndefined"
      show False
      proof (cases ks)
        case Nil
        with w u Cons.prems(2) show False by (simp add: is_object_def)
      next
        case (Cons k2 ks2)
        with w u show False by (simp add: walk_Cons_nonobj is_object_def)
      qed
    qed
    with Cons.IH [OF w Cons.prems(2)] a1 c1 show ?thesis by (simp add: get_property_def)
  qed
  show ?case
  proof (cases rule: walk_Cons_cases [of h t rt k ks])
    case nonobj
    with Cons.prems show ?thesis by simp
  next
    case (own a w)
    with Cons.prems have "walk rt ks w h = (Inr r, h1)" by simp
    from step [OF this own(2,3)] own(1) show ?thesis by simp
  next
    case (inherited a)
    with Cons.prems show ?thesis by simp
  next
    case (created a)
    let ?h1 = "(h @ [[]])[a := AList.update k (JRef (length h)) (h ! a)]"
    from created Cons.prems have w: "walk rt ks (JRef (length h)) ?h1 = (Inr r, h1)" by simp
    have "a < length ?h1" using created by simp
    moreover have "map_of (?h1 ! a) k = Some (JRef (length h))"
      using created by (simp add: update_conv')
    ultimately show ?thesis using step [OF w] created(1) by simp
  qed
qed

lemma walk_chain:
  "a < length h \<Longrightarrow> (ks \<noteq> [] \<longrightarrow> map_of (h ! a) (hd ks) = None) \<Longrightarrow> no_members rt ks \<Longrightarrow>
   \<exists>a' h'. walk rt ks (JRef a) h = (Inr (JRef a'), h')
     \<and> length h' = length h + length ks \<and> a' < length h'
     \<and> (ks = [] \<longrightarrow> a' = a) \<and> (ks \<noteq> [] \<longrightarrow> length h \<le> a')
     \<and> get_loop rt h' (JRef a) ks = Inr (JRef a')
     \<and> (\<forall>k v. get_loop rt (h'[a' := AList.update k v (h' ! a')]) (JRef a) ks = Inr (JRef a'))"
proof (induction ks arbitrary: a h)
  case Nil
  then show ?case by simp
next
  case (Cons k1 ks)
  let ?n = "length h"
  let ?h1 = "(h @ [[]])[a := AList.update k1 (JRef ?n) (h ! a)]"
  from Cons.prems have none: "map_of (h ! a) k1 = None" by simp
  from Cons.prems have k1: "\<not> object_member rt k1" and ks: "no_members rt ks"
    by (simp_all add: no_members_def)
  have n1: "?n < length ?h1" by simp
  have e1: "ks \<noteq> [] \<longrightarrow> map_of (?h1 ! ?n) (hd ks) = None"
    using Cons.prems(1) by (simp add: nth_list_update nth_append)
  from Cons.IH [OF n1 e1 ks] obtain a' h' where
    w: "walk rt ks (JRef ?n) ?h1 = (Inr (JRef a'), h')"
    and len: "length h' = length ?h1 + length ks"
    and a': "a' < length h'"
    and nil: "ks = [] \<longrightarrow> a' = ?n"
    and cons: "ks \<noteq> [] \<longrightarrow> length ?h1 \<le> a'"
    and rd: "get_loop rt h' (JRef ?n) ks = Inr (JRef a')"
    and rd2: "\<forall>k v. get_loop rt (h'[a' := AList.update k v (h' ! a')]) (JRef ?n) ks = Inr (JRef a')"
    by blast
  have ge: "?n \<le> a'" using nil cons by (cases ks) auto
  with Cons.prems(1) have ne: "a \<noteq> a'" by simp
  have "map_of (?h1 ! a) k1 = Some (JRef ?n)"
    using Cons.prems(1) by (simp add: update_conv')
  from walk_preserves [OF w _ this] Cons.prems(1)
  have cell: "map_of (h' ! a) k1 = Some (JRef ?n)" by simp
  have a_h': "a < length h'" using len Cons.prems(1) by simp
  have walk_eq: "walk rt (k1 # ks) (JRef a) h = (Inr (JRef a'), h')"
    using w none k1 Cons.prems(1) by (simp add: walk_Cons_ref)
  have r1: "get_loop rt h' (JRef a) (k1 # ks) = Inr (JRef a')"
    using get_loop_ref_Cons [OF a_h' cell] rd by simp
  have r2: "\<forall>k v. get_loop rt (h'[a' := AList.update k v (h' ! a')]) (JRef a) (k1 # ks) = Inr (JRef a')"
  proof (intro allI)
    fix k v
    let ?h2 = "h'[a' := AList.update k v (h' ! a')]"
    have "a < length ?h2" using a_h' by simp
    moreover have "map_of (?h2 ! a) k1 = Some (JRef ?n)" using cell ne by simp
    ultimately have "get_loop rt ?h2 (JRef a) (k1 # ks) = get_loop rt ?h2 (JRef ?n) ks"
      by (rule get_loop_ref_Cons)
    with rd2 show "get_loop rt ?h2 (JRef a) (k1 # ks) = Inr (JRef a')" by simp
  qed
  from walk_eq len a' ge r1 r2 show ?case by simp
qed

lemma walk_append:
  "walk rt (ks1 @ ks2) t h =
     (case walk rt ks1 t h of (Inl e, h1) \<Rightarrow> (Inl e, h1) | (Inr t1, h1) \<Rightarrow> walk rt ks2 t1 h1)"
proof (induction ks1 arbitrary: t h)
  case Nil
  show ?case by simp
next
  case (Cons k ks1)
  show ?case
  proof (cases rule: walk_Cons_cases [of h t rt k "ks1 @ ks2"])
    case nonobj
    from nonobj(1) show ?thesis by (simp add: walk_Cons_nonobj)
  next
    case (own a w)
    from own(1-3) show ?thesis using Cons.IH by (simp add: walk_Cons_own)
  next
    case (inherited a)
    from inherited(1-4) show ?thesis by (simp add: walk_Cons_inherited)
  next
    case (created a)
    from created(1-4) show ?thesis using Cons.IH by (simp add: walk_Cons_ref)
  qed
qed

lemma keys_split: "butlast (split_dot key) @ [last (split_dot key)] = split_dot key"
  by (simp add: split_dot_nonempty)

lemma hd_butlast_keys: "butlast xs \<noteq> [] \<Longrightarrow> hd (butlast xs) = hd xs"
  by (cases xs) (auto split: if_splits)

lemma split_dot_no_dot: "CHR ''.'' \<notin> set p \<Longrightarrow> split_dot p = [p]"
  by (induction p) auto

lemma no_members_butlast: "no_members rt ks \<Longrightarrow> no_members rt (butlast ks)"
  by (auto simp add: no_members_def list_all_iff dest: in_set_butlastD)

lemma no_members_last: "no_members rt ks \<Longrightarrow> ks \<noteq> [] \<Longrightarrow> \<not> object_member rt (last ks)"
  by (auto simp add: no_members_def list_all_iff)

lemma invocations_append: "invocations (xs @ ys) = invocations xs @ invocations ys"
  by (induction xs rule: invocations.induct) simp_all

lemma logged_errors_append: "logged_errors (xs @ ys) = logged_errors xs @ logged_errors ys"
  by (induction xs rule: logged_errors.induct) simp_all

declare StateManager_set.simps [simp del]

declare notify_from.simps(2) [simp del]

lemma run_observer_passive:
  "\<not> list_ex calls_back cs \<Longrightarrow>
   run_observer rt beh n cs s =
     ((case throw_of cs of None \<Rightarrow> Inr () | Some e \<Rightarrow> Inl (Throws (Thrown e))), [], s)"
proof (cases cs)
  case Nil
  then show ?thesis by (simp add: throw_of_def)
next
  case (Cons c cs')
  assume "\<not> list_ex calls_back cs"
  with Cons show ?thesis by (cases c) (simp_all add: throw_of_def)
qed

lemma notify_from_passive_step:
  assumes "map_of (observers s) key = Some es" and "i < length es" and "es ! i = Some cb"
    and "\<not> list_ex calls_back (beh cb v old)"
  shows "notify_from rt beh (Suc n) i key v old s =
     (case notify_from rt beh n (Suc i) key v old s of
        (r, es', s2) \<Rightarrow> (r, call_passive beh key v old cb @ es', s2))"
  using assms
  by (simp add: notify_from.simps(2) run_observer_passive call_passive_def
      split: option.splits prod.splits)

lemma notify_from_empty_slot:
  assumes "map_of (observers s) key = Some es" and "i < length es" and "es ! i = None"
  shows "notify_from rt beh (Suc n) i key v old s = notify_from rt beh n (Suc i) key v old s"
  using assms by (simp add: notify_from.simps(2))

lemma notify_from_end:
  assumes "map_of (observers s) key = Some es" and "length es \<le> i"
  shows "notify_from rt beh (Suc n) i key v old s = (Inr (), [], s)"
  using assms by (simp add: notify_from.simps(2))

lemma notify_from_no_set:
  assumes "map_of (observers s) key = None"
  shows "notify_from rt beh (Suc n) i key v old s = (Inr (), [], s)"
  using assms by (simp add: notify_from.simps(2))

lemma present_drop:
  "i < length es \<Longrightarrow>
   present (drop i es) = (case es ! i of None \<Rightarrow> [] | Some x \<Rightarrow> [x]) @ present (drop (Suc i) es)"
  by (simp add: Cons_nth_drop_Suc [symmetric] split: option.splits)

lemma notify_from_passive:
  "map_of (observers s) key = Some es \<Longrightarrow>
   list_all (\<lambda>cb. \<not> list_ex calls_back (beh cb v old)) (present (drop i es)) \<Longrightarrow>
   length es - i < n \<Longrightarrow>
   notify_from rt beh n i key v old s =
     (Inr (), concat (map (call_passive beh key v old) (present (drop i es))), s)"
proof (induction n arbitrary: i)
  case 0
  then show ?case by simp
next
  case (Suc n)
  show ?case
  proof (cases "length es \<le> i")
    case True
    with Suc.prems(1) show ?thesis by (simp add: notify_from_end)
  next
    case False
    then have i: "i < length es" by simp
    note pd = present_drop [OF i]
    from Suc.prems(2) have rest:
      "list_all (\<lambda>cb. \<not> list_ex calls_back (beh cb v old)) (present (drop (Suc i) es))"
      by (simp add: pd)
    from Suc.prems(3) i have "length es - Suc i < n" by simp
    note ih = Suc.IH [OF Suc.prems(1) rest this]
    show ?thesis
    proof (cases "es ! i")
      case None
      with ih Suc.prems(1) i show ?thesis by (simp add: notify_from_empty_slot pd)
    next
      case (Some cb)
      with Suc.prems(2) have "\<not> list_ex calls_back (beh cb v old)" by (simp add: pd)
      from notify_from_passive_step [of s key es i cb beh v old rt n] Suc.prems(1) i Some this ih
      show ?thesis by (simp add: pd)
    qed
  qed
qed

lemma notify_passive:
  assumes "passive_observers beh v old (subscribed key s)" and "length (entries_of key s) < n"
  shows "notify_from rt beh n 0 key v old s =
     (Inr (), concat (map (call_passive beh key v old) (subscribed key s)), s)"
proof (cases "map_of (observers s) key")
  case None
  from assms(2) obtain m where "n = Suc m" by (cases n) simp_all
  with None show ?thesis by (simp add: notify_from_no_set subscribed_def entries_of_def)
next
  case (Some es)
  with assms notify_from_passive [OF Some, of beh v old 0 n rt] show ?thesis
    by (simp add: subscribed_def entries_of_def passive_observers_def)
qed

lemma invocations_passive:
  "invocations (concat (map (call_passive beh key v old) cbs)) = map (\<lambda>cb. (cb, v, old)) cbs"
  by (induction cbs) (simp_all add: invocations_append call_passive_def split: option.splits)

lemma logged_errors_passive:
  "logged_errors (concat (map (call_passive beh key v old) cbs)) =
     map (\<lambda>e. (''Error in state observer for '' @ key, Caught (Thrown e))) (thrown beh v old cbs)"
  by (induction cbs)
    (simp_all add: logged_errors_append call_passive_def thrown_def map_filter_simps
      split: option.splits)

lemma put_after_get:
  "a < length h \<Longrightarrow> get_property rt h (JRef a) k = Inr old \<Longrightarrow>
   put_property rt h (JRef a) k v = Inr (h[a := AList.update k v (h ! a)])"
  by (auto simp add: get_property_def put_property_def split: option.splits if_splits)

lemma subscribed_heap [simp]: "subscribed key (s\<lparr>heap := h\<rparr>) = subscribed key s"
  by (simp add: subscribed_def entries_of_def)

lemma entries_of_heap [simp]: "entries_of key (s\<lparr>heap := h\<rparr>) = entries_of key s"
  by (simp add: entries_of_def)

lemma set_on_object:
  assumes w: "walk rt (butlast (split_dot key)) (JRef (state s)) (heap s) = (Inr (JRef a), h1)"
    and a: "a < length h1"
    and rd: "get_property rt h1 (JRef a) (last (split_dot key)) = Inr old"
    and pas: "passive_observers beh v old (subscribed key s)"
    and fuel: "length (entries_of key s) < n"
  shows "StateManager_set rt beh n key v s =
     (if strict_eq old v then (Inr (), [], s\<lparr>heap := h1\<rparr>)
      else (Inr (),
            Logger (DEBUG, ''State updated: '' @ key, OldNew old v)
              # concat (map (call_passive beh key v old) (subscribed key s)),
            s\<lparr>heap := h1[a := AList.update (last (split_dot key)) v (h1 ! a)]\<rparr>))"
proof -
  let ?h2 = "h1[a := AList.update (last (split_dot key)) v (h1 ! a)]"
  have "notify_from rt beh n 0 key v old (s\<lparr>heap := ?h2\<rparr>) =
     (Inr (), concat (map (call_passive beh key v old) (subscribed key (s\<lparr>heap := ?h2\<rparr>))),
      s\<lparr>heap := ?h2\<rparr>)"
    using pas fuel by (intro notify_passive) simp_all
  with w rd put_after_get [OF a rd, of v] show ?thesis
    by (simp add: StateManager_set.simps)
qed

lemma container_SomeD:
  "container rt key s = Some a \<Longrightarrow>
   \<exists>h1. walk rt (butlast (split_dot key)) (JRef (state s)) (heap s) = (Inr (JRef a), h1)
        \<and> a < length h1"
  by (auto simp add: container_def split: prod.splits sum.splits jsval.splits if_splits)

lemma old_value_on_object:
  assumes "walk rt (butlast (split_dot key)) (JRef (state s)) (heap s) = (Inr (JRef a), h1)"
  shows "old_value rt key s = get_property rt h1 (JRef a) (last (split_dot key))"
  using assms by (simp add: old_value_def)

lemma set_with_old_value:
  assumes c: "container rt p s = Some a" and o: "old_value rt p s = Inr old"
    and pas: "passive_observers beh v old (subscribed p s)"
    and fuel: "length (entries_of p s) < n"
  shows "\<exists>h1. walk rt (butlast (split_dot p)) (JRef (state s)) (heap s) = (Inr (JRef a), h1)
     \<and> a < length h1
     \<and> get_property rt h1 (JRef a) (last (split_dot p)) = Inr old
     \<and> StateManager_set rt beh n p v s =
         (if strict_eq old v then (Inr (), [], s\<lparr>heap := h1\<rparr>)
          else (Inr (),
                Logger (DEBUG, ''State updated: '' @ p, OldNew old v)
                  # concat (map (call_passive beh p v old) (subscribed p s)),
                s\<lparr>heap := h1[a := AList.update (last (split_dot p)) v (h1 ! a)]\<rparr>))"
proof -
  from container_SomeD [OF c] obtain h1 where
    w: "walk rt (butlast (split_dot p)) (JRef (state s)) (heap s) = (Inr (JRef a), h1)"
    and a: "a < length h1"
    by blast
  from old_value_on_object [OF w] o
  have rd: "get_property rt h1 (JRef a) (last (split_dot p)) = Inr old" by simp
  from set_on_object [OF w a rd pas fuel] w a rd show ?thesis by blast
qed

lemma notify_from_passive_any_fuel:
  "map_of (observers s) key = Some es \<Longrightarrow>
   list_all (\<lambda>cb. \<not> list_ex calls_back (beh cb v old)) (present (drop i es)) \<Longrightarrow>
   notify_from rt beh n i key v old s = (r, effs, s') \<Longrightarrow>
   s' = s \<and> fst ` set (invocations effs) \<subseteq> set (present (drop i es))"
proof (induction n arbitrary: i r effs s')
  case 0
  then show ?case by simp
next
  case (Suc n)
  show ?case
  proof (cases "length es \<le> i")
    case True
    with Suc.prems(1,3) show ?thesis by (simp add: notify_from_end)
  next
    case False
    then have i: "i < length es" by simp
    note pd = present_drop [OF i]
    from Suc.prems(2) have rest:
      "list_all (\<lambda>cb. \<not> list_ex calls_back (beh cb v old)) (present (drop (Suc i) es))"
      by (simp add: pd)
    show ?thesis
    proof (cases "es ! i")
      case None
      with Suc.prems(1,3) i
      have "notify_from rt beh n (Suc i) key v old s = (r, effs, s')"
        by (simp add: notify_from_empty_slot)
      from Suc.IH [OF Suc.prems(1) rest this] None show ?thesis by (simp add: pd)
    next
      case (Some cb)
      with Suc.prems(2) have p: "\<not> list_ex calls_back (beh cb v old)" by (simp add: pd)
      obtain r1 es1 s1 where
        nf: "notify_from rt beh n (Suc i) key v old s = (r1, es1, s1)"
        by (metis prod_cases3)
      from notify_from_passive_step [of s key es i cb beh v old rt n] Suc.prems(1,3) i Some p nf
      have e: "effs = call_passive beh key v old cb @ es1" and s1: "s' = s1" by simp_all
      from Suc.IH [OF Suc.prems(1) rest nf] e s1 Some show ?thesis
        by (auto simp add: pd invocations_append call_passive_def split: option.splits)
    qed
  qed
qed

lemma notify_passive_any_fuel:
  assumes "passive_observers beh v old (subscribed key s)"
    and "notify_from rt beh n 0 key v old s = (r, effs, s')"
  shows "s' = s \<and> fst ` set (invocations effs) \<subseteq> set (subscribed key s)"
proof (cases "map_of (observers s) key")
  case None
  with assms(2) show ?thesis by (cases n) (simp_all add: notify_from_no_set)
next
  case (Some es)
  from notify_from_passive_any_fuel [OF Some _ assms(2)] assms(1) Some show ?thesis
    by (simp add: subscribed_def entries_of_def passive_observers_def)
qed

lemma put_property_length: "put_property rt h t k v = Inr h2 \<Longrightarrow> length h2 = length h"
  by (auto simp add: put_property_def split: jsval.splits if_splits)

lemma set_passive_frame:
  assumes "\<And>old. passive_observers beh v old (subscribed key s)"
  shows "observers (manager_of (StateManager_set rt beh n key v s)) = observers s
    \<and> state (manager_of (StateManager_set rt beh n key v s)) = state s
    \<and> length (heap s) \<le> length (heap (manager_of (StateManager_set rt beh n key v s)))
    \<and> fst ` set (invocations (effects_of (StateManager_set rt beh n key v s)))
        \<subseteq> set (subscribed key s)"
proof -
  obtain r1 h1 where w: "walk rt (butlast (split_dot key)) (JRef (state s)) (heap s) = (r1, h1)"
    by (cases "walk rt (butlast (split_dot key)) (JRef (state s)) (heap s)")
  note len = walk_length [OF w]
  show ?thesis
  proof (cases r1)
    case (Inl e)
    with w len show ?thesis by (simp add: StateManager_set.simps manager_of_def effects_of_def)
  next
    case (Inr target)
    note t = Inr
    show ?thesis
    proof (cases "get_property rt h1 target (last (split_dot key))")
      case (Inl e)
      with w t len show ?thesis
        by (simp add: StateManager_set.simps manager_of_def effects_of_def)
    next
      case (Inr old)
      note rd = Inr
      show ?thesis
      proof (cases "strict_eq old v")
        case True
        with w t rd len show ?thesis
          by (simp add: StateManager_set.simps manager_of_def effects_of_def)
      next
        case False
        show ?thesis
        proof (cases "put_property rt h1 target (last (split_dot key)) v")
          case (Inl e)
          with w t rd False len show ?thesis
            by (simp add: StateManager_set.simps manager_of_def effects_of_def)
        next
          case (Inr h2)
          obtain r effs s' where
            nf: "notify_from rt beh n 0 key v old (s\<lparr>heap := h2\<rparr>) = (r, effs, s')"
            by (metis prod_cases3)
          have "passive_observers beh v old (subscribed key (s\<lparr>heap := h2\<rparr>))"
            using assms by simp
          from notify_passive_any_fuel [OF this nf]
          have "s' = s\<lparr>heap := h2\<rparr>" and "fst ` set (invocations effs) \<subseteq> set (subscribed key s)"
            by simp_all
          with w t rd False Inr nf len put_property_length [OF Inr] show ?thesis
            by (simp add: StateManager_set.simps manager_of_def effects_of_def)
        qed
      qed
    qed
  qed
qed

lemma set_many_subset:
  assumes "\<And>new old. passive_observers beh new old (subscribed key s)"
  shows "fst ` set (set_many rt beh n key vs s) \<subseteq> set (subscribed key s)"
  using assms
proof (induction vs arbitrary: s)
  case Nil
  show ?case by simp
next
  case (Cons v vs)
  let ?s1 = "manager_of (StateManager_set rt beh n key v s)"
  from set_passive_frame [of beh v key s rt n] Cons.prems
  have o: "observers ?s1 = observers s"
    and i: "fst ` set (invocations (effects_of (StateManager_set rt beh n key v s)))
        \<subseteq> set (subscribed key s)"
    by simp_all
  from o have sub: "subscribed key ?s1 = subscribed key s"
    by (simp add: subscribed_def entries_of_def)
  from Cons.IH [of ?s1] Cons.prems sub
  have "fst ` set (set_many rt beh n key vs ?s1) \<subseteq> set (subscribed key s)" by simp
  with i show ?case by (simp add: image_Un)
qed

lemma present_append: "present (xs @ ys) = present xs @ present ys"
  by (induction xs rule: present.induct) simp_all

lemma present_member: "Some x \<in> set es \<longleftrightarrow> x \<in> set (present es)"
  by (induction es rule: present.induct) auto

lemma present_set_add:
  "present (set_add x es) = (if x \<in> set (present es) then present es else present es @ [x])"
  by (simp add: set_add_def present_append present_member)

lemma present_set_delete: "present (set_delete x es) = removeAll x (present es)"
  by (induction es rule: present.induct) (auto simp add: set_delete_def)

lemma entries_of_subscribe:
  "entries_of key (snd (subscribe key cb s)) = set_add cb (entries_of key s)"
  by (cases "map_of (observers s) key")
    (simp_all add: subscribe_def entries_of_def Let_def update_conv' set_add_def)

lemma subscribed_subscribe:
  "subscribed key (snd (subscribe key cb s)) =
     (if cb \<in> set (subscribed key s) then subscribed key s else subscribed key s @ [cb])"
  by (simp add: subscribed_def entries_of_subscribe present_set_add)

lemma entries_of_unsubscribe:
  "entries_of key (snd (unsubscribe key cb s)) = set_delete cb (entries_of key s)"
  by (cases "map_of (observers s) key")
    (simp_all add: unsubscribe_def entries_of_def update_conv' set_delete_def)

lemma subscribed_unsubscribe:
  "subscribed key (snd (unsubscribe key cb s)) = removeAll cb (subscribed key s)"
  by (simp add: subscribed_def entries_of_unsubscribe present_set_delete)

lemma set_add_idem: "set_add x (set_add x xs) = set_add x xs"
  by (simp add: set_add_def)

lemma subscribe_twice:
  "observers (snd (subscribe key cb (snd (subscribe key cb s)))) = observers (snd (subscribe key cb s))"
proof -
  obtain obs where o: "observers (snd (subscribe key cb s)) = obs" by simp
  have m: "map_of obs key = Some (set_add cb (entries_of key s))"
    using o by (cases "map_of (observers s) key")
      (auto simp add: subscribe_def entries_of_def Let_def update_conv')
  have "observers (snd (subscribe key cb (snd (subscribe key cb s))))
      = AList.update key (set_add cb (set_add cb (entries_of key s))) obs"
    using o m by (simp add: subscribe_def [of key cb "snd (subscribe key cb s)"] Let_def)
  also have "\<dots> = obs" using m by (simp add: set_add_idem update_triv)
  finally show ?thesis using o by simp
qed

lemma list_all_update:
  "list_all P al \<Longrightarrow> P (k, v) \<Longrightarrow> list_all P (AList.update k v al)"
  by (induction al) auto

lemma observers_ok_subscribed: "observers_ok s \<Longrightarrow> distinct (subscribed key s)"
  by (auto simp add: observers_ok_def subscribed_def entries_of_def list_all_iff
      split: option.splits dest!: map_of_SomeD)

lemma distinct_set_add: "distinct (present es) \<Longrightarrow> distinct (present (set_add x es))"
  by (simp add: present_set_add)

lemma observers_ok_subscribe: "observers_ok s \<Longrightarrow> observers_ok (snd (subscribe key cb s))"
proof -
  assume ok: "observers_ok s"
  show ?thesis
  proof (cases "map_of (observers s) key")
    case None
    then show ?thesis using ok
      by (simp add: subscribe_def Let_def update_conv' observers_ok_def list_all_update set_add_def)
  next
    case (Some es)
    with ok have "distinct (present es)"
      by (auto simp add: observers_ok_def list_all_iff dest!: map_of_SomeD)
    with Some ok show ?thesis
      by (simp add: subscribe_def Let_def observers_ok_def list_all_update distinct_set_add)
  qed
qed

lemma distinct_count_one:
  "distinct xs \<Longrightarrow> x \<in> set xs \<Longrightarrow> length (filter (\<lambda>y. y = x) xs) = 1"
  by (induction xs) (auto simp add: filter_empty_conv)

lemma subscribe_frame [simp]:
  "heap (snd (subscribe key cb s)) = heap s" "state (snd (subscribe key cb s)) = state s"
  by (simp_all add: subscribe_def Let_def)

lemma unsubscribe_frame [simp]:
  "heap (snd (unsubscribe key cb s)) = heap s" "state (snd (unsubscribe key cb s)) = state s"
  by (simp_all add: unsubscribe_def)

lemma length_set_delete: "length (set_delete x es) = length es"
  by (simp add: set_delete_def)

lemmas sm_eval = StateManager_set.simps notify_from.simps(2) StateManager_new_def walk.simps(2)
  has_property_def get_property_def put_property_def strict_eq_def member_of_primitive_def
  browser_runtime_def object_names_def primitive_names_def effects_of_def manager_of_def
  container_def old_value_def subscribed_def entries_of_def observers_ok_def
  StateManager_get_def subscribe_def unsubscribe_def set_add_def set_delete_def Let_def
  eval_nat_numeral

lemma observed_eq:
  "observed key = StateManager_new\<lparr>observers := [(key, [Some 1, Some 2])]\<rparr>"
  by (simp add: observed_def subscribe_def StateManager_new_def Let_def set_add_def)

text \<open>
  Claim C7, as amended. Let no segment of \<open>p\<close> name a member that objects inherit, let
  the last segment of \<open>p\<close> be held by an object, let the value \<open>old\<close> read there be not
  strictly equal to \<open>v\<close>, and let the observers subscribed to \<open>p\<close> be passive when
  called with \<open>(v, old)\<close>: they return or throw, and do not call back into the manager. Then \<open>set(p, v)\<close> returns; the observers invoked are exactly
  those subscribed to \<open>p\<close>, in their order in the \<open>Set\<close>, every one with \<open>(v, old)\<close>;
  and the errors logged are, in the same order, the values thrown by the observers that
  threw. The order in the \<open>Set\<close> is the order of registration: \<open>subscribe\<close> puts a new
  observer last and leaves a registered one in place.
\<close>

theorem set_notifies_every_observer:
  "(no_members rt (split_dot p) \<and> container rt p s = Some a \<and> old_value rt p s = Inr old
      \<and> \<not> strict_eq old v
      \<and> passive_observers beh v old (subscribed p s) \<and> length (entries_of p s) < n \<longrightarrow>
     (\<exists>effs s'. StateManager_set rt beh n p v s = (Inr (), effs, s')
        \<and> invocations effs = map (\<lambda>cb. (cb, v, old)) (subscribed p s)
        \<and> logged_errors effs =
            map (\<lambda>e. (''Error in state observer for '' @ p, Caught (Thrown e)))
              (thrown beh v old (subscribed p s))))
   \<and> subscribed p (snd (subscribe p cb s)) =
       (if cb \<in> set (subscribed p s) then subscribed p s else subscribed p s @ [cb])"
proof (intro conjI impI)
  assume h: "no_members rt (split_dot p) \<and> container rt p s = Some a \<and> old_value rt p s = Inr old
      \<and> \<not> strict_eq old v
      \<and> passive_observers beh v old (subscribed p s) \<and> length (entries_of p s) < n"
  then have c: "container rt p s = Some a" and o: "old_value rt p s = Inr old"
    and ne: "\<not> strict_eq old v" and pas: "passive_observers beh v old (subscribed p s)"
    and fuel: "length (entries_of p s) < n" by simp_all
  from set_with_old_value [OF c o pas fuel] ne
  obtain s' where "StateManager_set rt beh n p v s =
      (Inr (),
       Logger (DEBUG, ''State updated: '' @ p, OldNew old v)
         # concat (map (call_passive beh p v old) (subscribed p s)), s')"
    by auto
  then show "\<exists>effs s'. StateManager_set rt beh n p v s = (Inr (), effs, s')
        \<and> invocations effs = map (\<lambda>cb. (cb, v, old)) (subscribed p s)
        \<and> logged_errors effs =
            map (\<lambda>e. (''Error in state observer for '' @ p, Caught (Thrown e)))
              (thrown beh v old (subscribed p s))"
    by (simp add: invocations_passive logged_errors_passive)
next
  show "subscribed p (snd (subscribe p cb s)) =
       (if cb \<in> set (subscribed p s) then subscribed p s else subscribed p s @ [cb])"
    by (rule subscribed_subscribe)
qed

text \<open>
  Counterexample to claim C7 as stated. Observers 1 and 2 are subscribed to \<open>theme\<close>, in
  this order, and observer 1 calls the unsubscribe function of observer 2. Then
  \<open>set('theme', 'light')\<close> changes the stored value from \<open>'dark'\<close> to \<open>'light'\<close> and
  returns, but observer 2, registered on \<open>theme\<close> when \<open>set\<close> was called, is not invoked:
  \<open>forEach\<close> does not visit a value deleted from the \<open>Set\<close> before its turn.
\<close>

theorem set_skips_observer_unsubscribed_during_notification:
  "subscribed ''theme'' (observed ''theme'') = [1, 2]
   \<and> StateManager_get browser_runtime ''theme'' (observed ''theme'') = Inr (JStr ''dark'')
   \<and> fst (StateManager_set browser_runtime meddling 5 ''theme'' (JStr ''light'') (observed ''theme''))
       = Inr ()
   \<and> invocations (effects_of
        (StateManager_set browser_runtime meddling 5 ''theme'' (JStr ''light'') (observed ''theme'')))
       = [(1, JStr ''light'', JStr ''dark'')]
   \<and> StateManager_get browser_runtime ''theme''
        (manager_of
          (StateManager_set browser_runtime meddling 5 ''theme'' (JStr ''light'') (observed ''theme'')))
       = Inr (JStr ''light'')"
  by (simp add: observed_eq sm_eval meddling_def)

theorem set_notifies_every_observer_witness:
  "no_members browser_runtime (split_dot ''currentView'')
   \<and> container browser_runtime ''currentView'' (observed ''currentView'') = Some 0
   \<and> old_value browser_runtime ''currentView'' (observed ''currentView'') = Inr (JStr ''home'')
   \<and> \<not> strict_eq (JStr ''home'') (JStr ''portfolio'')
   \<and> passive_observers faulty (JStr ''portfolio'') (JStr ''home'')
        (subscribed ''currentView'' (observed ''currentView''))
   \<and> length (entries_of ''currentView'' (observed ''currentView'')) < 3
   \<and> (\<exists>effs s'. StateManager_set browser_runtime faulty 3 ''currentView'' (JStr ''portfolio'')
                   (observed ''currentView'')
          = (Inr (), effs, s')
        \<and> invocations effs = [(1, JStr ''portfolio'', JStr ''home''), (2, JStr ''portfolio'', JStr ''home'')]
        \<and> logged_errors effs =
            [(''Error in state observer for currentView'', Caught (Thrown (JStr ''Observer error'')))])
   \<and> subscribed ''currentView'' (snd (subscribe ''currentView'' 3 (observed ''currentView'')))
       = [1, 2, 3]
   \<and> subscribed ''currentView'' (snd (subscribe ''currentView'' 1 (observed ''currentView'')))
       = [1, 2]"
proof -
  have nm: "no_members browser_runtime (split_dot ''currentView'')"
    by (simp add: no_members_def sm_eval)
  have c: "container browser_runtime ''currentView'' (observed ''currentView'') = Some 0"
    by (simp add: observed_eq sm_eval)
  have o: "old_value browser_runtime ''currentView'' (observed ''currentView'') = Inr (JStr ''home'')"
    by (simp add: observed_eq sm_eval)
  have ne: "\<not> strict_eq (JStr ''home'') (JStr ''portfolio'')"
    by (simp add: strict_eq_def)
  have sub: "subscribed ''currentView'' (observed ''currentView'') = [1, 2]"
    by (simp add: observed_eq sm_eval)
  have pas: "passive_observers faulty (JStr ''portfolio'') (JStr ''home'')
        (subscribed ''currentView'' (observed ''currentView''))"
    by (simp add: sub passive_observers_def faulty_def)
  have fuel: "length (entries_of ''currentView'' (observed ''currentView'')) < 3"
    by (simp add: observed_eq sm_eval)
  note main = set_notifies_every_observer
    [of browser_runtime "''currentView''" "observed ''currentView''" 0 "JStr ''home''"
      "JStr ''portfolio''" faulty 3]
  from nm c o ne pas fuel main [of 3]
  have r1: "\<exists>effs s'. StateManager_set browser_runtime faulty 3 ''currentView'' (JStr ''portfolio'')
                   (observed ''currentView'')
          = (Inr (), effs, s')
        \<and> invocations effs = [(1, JStr ''portfolio'', JStr ''home''), (2, JStr ''portfolio'', JStr ''home'')]
        \<and> logged_errors effs =
            [(''Error in state observer for currentView'', Caught (Thrown (JStr ''Observer error'')))]"
    by (simp add: sub thrown_def faulty_def map_filter_simps throw_of_def)
  from main [of 3]
  have r2: "subscribed ''currentView'' (snd (subscribe ''currentView'' 3 (observed ''currentView'')))
       = [1, 2, 3]"
    by (simp add: sub)
  from main [of 1]
  have r3: "subscribed ''currentView'' (snd (subscribe ''currentView'' 1 (observed ''currentView'')))
       = [1, 2]"
    by (simp add: sub)
  from nm c o ne pas fuel r1 r2 r3 show ?thesis by blast
qed

text \<open>
  Claim C6, as amended. Subscribing the same observer to the same key a second time leaves
  the registrations as they were after the first time, and the observer is then
  registered once. Let no segment of the key name a member that objects inherit, let the
  last segment of the key be held by an object, and let the value \<open>old\<close> read there be
  not strictly equal to \<open>v\<close>. If the observers subscribed to the key are passive (they return or throw, and do
  not call back into the manager), then \<open>set(key, v)\<close> invokes the observer subscribed
  twice exactly once. After the function returned by \<open>subscribe(key, cb)\<close> has run, and
  as long as the remaining observers are passive, no sequence of \<open>set\<close> calls on that
  key invokes \<open>cb\<close>, and \<open>set(key, v)\<close> invokes exactly the remaining observers, in
  order, every one with \<open>(v, old)\<close>.
\<close>

theorem subscribe_idempotent_unsubscribe_final:
  "observers (snd (subscribe key cb (snd (subscribe key cb s)))) = observers (snd (subscribe key cb s))
   \<and> (observers_ok s \<longrightarrow>
        observers_ok (snd (subscribe key cb s))
        \<and> length (filter (\<lambda>c. c = cb)
             (subscribed key (snd (subscribe key cb (snd (subscribe key cb s)))))) = 1)
   \<and> (observers_ok s \<and> no_members rt (split_dot key) \<and> container rt key s = Some a
        \<and> old_value rt key s = Inr old \<and> \<not> strict_eq old v
        \<and> passive_observers beh v old
             (subscribed key (snd (subscribe key cb (snd (subscribe key cb s)))))
        \<and> length (entries_of key (snd (subscribe key cb (snd (subscribe key cb s))))) < n \<longrightarrow>
        (\<exists>effs s'.
           StateManager_set rt beh n key v (snd (subscribe key cb (snd (subscribe key cb s))))
             = (Inr (), effs, s')
           \<and> length (filter (\<lambda>x. fst x = cb) (invocations effs)) = 1))
   \<and> ((\<forall>new old. passive_observers beh new old (removeAll cb (subscribed key s))) \<longrightarrow>
        cb \<notin> fst ` set (set_many rt beh n key vs (snd (unsubscribe key cb s))))
   \<and> (no_members rt (split_dot key) \<and> container rt key s = Some a
        \<and> old_value rt key s = Inr old \<and> \<not> strict_eq old v
        \<and> passive_observers beh v old (removeAll cb (subscribed key s))
        \<and> length (entries_of key s) < n \<longrightarrow>
        (\<exists>effs s'.
           StateManager_set rt beh n key v (snd (unsubscribe key cb s)) = (Inr (), effs, s')
           \<and> invocations effs = map (\<lambda>c. (c, v, old)) (removeAll cb (subscribed key s))))"
proof (intro conjI impI)
  show "observers (snd (subscribe key cb (snd (subscribe key cb s)))) = observers (snd (subscribe key cb s))"
    by (rule subscribe_twice)
next
  assume ok: "observers_ok s"
  then show "observers_ok (snd (subscribe key cb s))" by (rule observers_ok_subscribe)
  let ?s2 = "snd (subscribe key cb (snd (subscribe key cb s)))"
  have "observers_ok ?s2" using ok by (intro observers_ok_subscribe)
  then have d: "distinct (subscribed key ?s2)" by (rule observers_ok_subscribed)
  have m: "cb \<in> set (subscribed key ?s2)" by (simp add: subscribed_subscribe)
  from distinct_count_one [OF d m]
  show "length (filter (\<lambda>c. c = cb) (subscribed key ?s2)) = 1" .
next
  let ?s2 = "snd (subscribe key cb (snd (subscribe key cb s)))"
  assume h: "observers_ok s \<and> no_members rt (split_dot key) \<and> container rt key s = Some a
        \<and> old_value rt key s = Inr old \<and> \<not> strict_eq old v
        \<and> passive_observers beh v old (subscribed key ?s2)
        \<and> length (entries_of key ?s2) < n"
  then have ok: "observers_ok s" and ne: "\<not> strict_eq old v"
    and pas: "passive_observers beh v old (subscribed key ?s2)"
    and fuel: "length (entries_of key ?s2) < n" by simp_all
  from h have c: "container rt key ?s2 = Some a" and o: "old_value rt key ?s2 = Inr old"
    by (simp_all add: container_def old_value_def)
  have "observers_ok ?s2" using ok by (intro observers_ok_subscribe)
  then have d: "distinct (subscribed key ?s2)" by (rule observers_ok_subscribed)
  have m: "cb \<in> set (subscribed key ?s2)" by (simp add: subscribed_subscribe)
  have f: "filter (\<lambda>x. fst x = cb) (map (\<lambda>c. (c, v, old)) xs)
      = map (\<lambda>c. (c, v, old)) (filter (\<lambda>c. c = cb) xs)" for xs
    by (induction xs) auto
  from set_with_old_value [OF c o pas fuel] ne
  obtain s' where "StateManager_set rt beh n key v ?s2 =
      (Inr (),
       Logger (DEBUG, ''State updated: '' @ key, OldNew old v)
         # concat (map (call_passive beh key v old) (subscribed key ?s2)), s')"
    by auto
  with distinct_count_one [OF d m]
  show "\<exists>effs s'. StateManager_set rt beh n key v ?s2 = (Inr (), effs, s')
           \<and> length (filter (\<lambda>x. fst x = cb) (invocations effs)) = 1"
    by (simp add: invocations_passive f)
next
  assume "\<forall>new old. passive_observers beh new old (removeAll cb (subscribed key s))"
  then have p: "\<And>new old. passive_observers beh new old
      (subscribed key (snd (unsubscribe key cb s)))"
    by (simp add: subscribed_unsubscribe)
  have "cb \<notin> set (subscribed key (snd (unsubscribe key cb s)))"
    by (simp add: subscribed_unsubscribe)
  with set_many_subset [of beh key "snd (unsubscribe key cb s)" rt n vs, OF p]
  show "cb \<notin> fst ` set (set_many rt beh n key vs (snd (unsubscribe key cb s)))" by blast
next
  let ?s1 = "snd (unsubscribe key cb s)"
  assume h: "no_members rt (split_dot key) \<and> container rt key s = Some a
        \<and> old_value rt key s = Inr old \<and> \<not> strict_eq old v
        \<and> passive_observers beh v old (removeAll cb (subscribed key s))
        \<and> length (entries_of key s) < n"
  then have ne: "\<not> strict_eq old v"
    and pas: "passive_observers beh v old (subscribed key ?s1)"
    and fuel: "length (entries_of key ?s1) < n"
    by (simp_all add: subscribed_unsubscribe entries_of_unsubscribe length_set_delete)
  from h have c: "container rt key ?s1 = Some a" and o: "old_value rt key ?s1 = Inr old"
    by (simp_all add: container_def old_value_def)
  from set_with_old_value [OF c o pas fuel] ne
  obtain s' where "StateManager_set rt beh n key v ?s1 =
      (Inr (),
       Logger (DEBUG, ''State updated: '' @ key, OldNew old v)
         # concat (map (call_passive beh key v old) (subscribed key ?s1)), s')"
    by auto
  then show "\<exists>effs s'. StateManager_set rt beh n key v ?s1 = (Inr (), effs, s')
           \<and> invocations effs = map (\<lambda>c. (c, v, old)) (removeAll cb (subscribed key s))"
    by (simp add: invocations_passive subscribed_unsubscribe)
qed

text \<open>
  Counterexample to claim C6 as stated. Observer 1 is subscribed to \<open>theme\<close> twice and
  observer 2 once; observer 2 calls the unsubscribe function of observer 1 and subscribes
  it again. Observer 1 is registered once, and the one notification of
  \<open>set('theme', 'light')\<close> invokes it twice: \<open>forEach\<close> visits a value again that was
  deleted from the \<open>Set\<close> and added anew.
\<close>

theorem observer_fires_twice_in_one_notification:
  "subscribed ''theme'' (snd (subscribe ''theme'' 1 (observed ''theme''))) = [1, 2]
   \<and> fst (StateManager_set browser_runtime shuffling 5 ''theme'' (JStr ''light'')
             (snd (subscribe ''theme'' 1 (observed ''theme''))))
       = Inr ()
   \<and> invocations (effects_of
        (StateManager_set browser_runtime shuffling 5 ''theme'' (JStr ''light'')
           (snd (subscribe ''theme'' 1 (observed ''theme'')))))
       = [(1, JStr ''light'', JStr ''dark''), (2, JStr ''light'', JStr ''dark''),
          (1, JStr ''light'', JStr ''dark'')]
   \<and> subscribed ''theme''
        (manager_of
          (StateManager_set browser_runtime shuffling 5 ''theme'' (JStr ''light'')
             (snd (subscribe ''theme'' 1 (observed ''theme'')))))
       = [2, 1]"
  by (simp add: observed_eq sm_eval shuffling_def)

theorem subscribe_idempotent_unsubscribe_final_witness:
  "observers_ok (observed ''theme'')
   \<and> observers (snd (subscribe ''theme'' 1 (snd (subscribe ''theme'' 1 (observed ''theme'')))))
       = observers (observed ''theme'')
   \<and> no_members browser_runtime (split_dot ''theme'')
   \<and> container browser_runtime ''theme'' (observed ''theme'') = Some 0
   \<and> old_value browser_runtime ''theme'' (observed ''theme'') = Inr (JStr ''dark'')
   \<and> \<not> strict_eq (JStr ''dark'') (JStr ''light'')
   \<and> passive_observers faulty (JStr ''light'') (JStr ''dark'')
        (subscribed ''theme'' (snd (subscribe ''theme'' 1 (snd (subscribe ''theme'' 1 (observed ''theme''))))))
   \<and> length (entries_of ''theme''
        (snd (subscribe ''theme'' 1 (snd (subscribe ''theme'' 1 (observed ''theme'')))))) < 3
   \<and> (\<exists>effs s'.
         StateManager_set browser_runtime faulty 3 ''theme'' (JStr ''light'')
           (snd (subscribe ''theme'' 1 (snd (subscribe ''theme'' 1 (observed ''theme'')))))
           = (Inr (), effs, s')
         \<and> length (filter (\<lambda>x. fst x = 1) (invocations effs)) = 1)
   \<and> (\<forall>new old. passive_observers faulty new old (removeAll 1 (subscribed ''theme'' (observed ''theme''))))
   \<and> 1 \<notin> fst ` set (set_many browser_runtime faulty 3 ''theme'' [JStr ''light'', JStr ''dark'']
                       (snd (unsubscribe ''theme'' 1 (observed ''theme''))))
   \<and> length (entries_of ''theme'' (observed ''theme'')) < 3
   \<and> (\<exists>effs s'.
         StateManager_set browser_runtime faulty 3 ''theme'' (JStr ''light'')
           (snd (unsubscribe ''theme'' 1 (observed ''theme''))) = (Inr (), effs, s')
         \<and> invocations effs = [(2, JStr ''light'', JStr ''dark'')])"
proof -
  let ?s = "observed ''theme''"
  let ?s2 = "snd (subscribe ''theme'' 1 (snd (subscribe ''theme'' 1 ?s)))"
  have ok: "observers_ok ?s" by (simp add: observed_eq sm_eval)
  have nm: "no_members browser_runtime (split_dot ''theme'')"
    by (simp add: no_members_def sm_eval)
  have c: "container browser_runtime ''theme'' ?s = Some 0" by (simp add: observed_eq sm_eval)
  have o: "old_value browser_runtime ''theme'' ?s = Inr (JStr ''dark'')"
    by (simp add: observed_eq sm_eval)
  have ne: "\<not> strict_eq (JStr ''dark'') (JStr ''light'')" by (simp add: strict_eq_def)
  have sub: "subscribed ''theme'' ?s = [1, 2]" by (simp add: observed_eq sm_eval)
  have sub2: "subscribed ''theme'' ?s2 = [1, 2]" by (simp add: subscribed_subscribe sub)
  have p2: "passive_observers faulty (JStr ''light'') (JStr ''dark'') (subscribed ''theme'' ?s2)"
    unfolding sub2 by (simp add: passive_observers_def faulty_def)
  have f2: "length (entries_of ''theme'' ?s2) < 3"
    by (simp add: entries_of_subscribe observed_eq sm_eval)
  have p1: "\<forall>new old. passive_observers faulty new old (removeAll 1 (subscribed ''theme'' ?s))"
    unfolding sub by (simp add: passive_observers_def faulty_def)
  have f1: "length (entries_of ''theme'' ?s) < 3" by (simp add: observed_eq sm_eval)
  have same: "observers (snd (subscribe ''theme'' 1 ?s)) = observers ?s"
    by (simp add: observed_eq sm_eval)
  note main = subscribe_idempotent_unsubscribe_final
    [of "''theme''" 1 ?s browser_runtime 0 "JStr ''dark''" "JStr ''light''" faulty 3
      "[JStr ''light'', JStr ''dark'']"]
  from main same have r0: "observers ?s2 = observers ?s" by simp
  from ok nm c o ne p2 f2 main
  have r1: "\<exists>effs s'. StateManager_set browser_runtime faulty 3 ''theme'' (JStr ''light'') ?s2
           = (Inr (), effs, s')
         \<and> length (filter (\<lambda>x. fst x = 1) (invocations effs)) = 1"
    by blast
  from p1 main
  have r2: "1 \<notin> fst ` set (set_many browser_runtime faulty 3 ''theme'' [JStr ''light'', JStr ''dark'']
                       (snd (unsubscribe ''theme'' 1 ?s)))"
    by blast
  from nm c o ne p1 f1 main
  have "\<exists>effs s'.
         StateManager_set browser_runtime faulty 3 ''theme'' (JStr ''light'')
           (snd (unsubscribe ''theme'' 1 ?s)) = (Inr (), effs, s')
         \<and> invocations effs = map (\<lambda>c. (c, JStr ''light'', JStr ''dark''))
              (removeAll 1 (subscribed ''theme'' ?s))"
    by blast
  then have r3: "\<exists>effs s'.
         StateManager_set browser_runtime faulty 3 ''theme'' (JStr ''light'')
           (snd (unsubscribe ''theme'' 1 ?s)) = (Inr (), effs, s')
         \<and> invocations effs = [(2, JStr ''light'', JStr ''dark'')]"
    by (simp add: sub)
  from ok r0 nm c o ne p2 f2 r1 p1 r2 f1 r3 show ?thesis by blast
qed

text \<open>
  Claim C1, as amended. Let no segment of \<open>p\<close> name a member that objects inherit, let
  the observers subscribed to \<open>p\<close> be passive (they return or throw, and do not call back
  into the manager), and let \<open>set(p, v1)\<close> return. For a path without dots the last
  segment is held by the state object before and after the call. Whenever the last
  segment of \<open>p\<close> is held by the same object \<open>a\<close> before and after the call: the value
  read at \<open>p\<close> afterwards is \<open>v1\<close>; for
  \<open>v2\<close> not strictly equal to \<open>v1\<close>, \<open>set(p, v2)\<close> returns and invokes the observers
  subscribed to exactly \<open>p\<close>, each once and in order, with \<open>(v2, v1)\<close>; and when \<open>v1\<close> is
  strictly equal to itself (it is not \<open>NaN\<close>), a second \<open>set(p, v1)\<close> writes no property
  and invokes no observer, so that the two consecutive \<open>set(p, v1)\<close> calls together
  invoke each observer once if the value stored before was not strictly equal to \<open>v1\<close>,
  and not at all if it was.
\<close>

theorem set_twice_notifications:
  assumes first: "StateManager_set rt beh n p v1 s = (Inr (), e1, s1)"
    and nm: "no_members rt (split_dot p)"
    and pas: "\<And>new old. passive_observers beh new old (subscribed p s)"
    and fuel: "length (entries_of p s) < n"
  shows "(CHR ''.'' \<notin> set p \<and> state s < length (heap s) \<longrightarrow>
            container rt p s = Some (state s) \<and> container rt p s1 = Some (state s))
    \<and> (container rt p s = Some a \<and> container rt p s1 = Some a \<longrightarrow>
         old_value rt p s1 = Inr v1
         \<and> subscribed p s1 = subscribed p s
         \<and> (\<not> strict_eq v1 v2 \<longrightarrow>
              (\<exists>e2 s2. StateManager_set rt beh n p v2 s1 = (Inr (), e2, s2)
                 \<and> invocations e2 = map (\<lambda>cb. (cb, v2, v1)) (subscribed p s1)))
         \<and> (observers_ok s \<longrightarrow> distinct (subscribed p s1))
         \<and> (strict_eq v1 v1 \<longrightarrow>
              StateManager_set rt beh n p v1 s1 =
                (Inr (), [],
                 s1\<lparr>heap := snd (walk rt (butlast (split_dot p)) (JRef (state s1)) (heap s1))\<rparr>)
              \<and> (\<exists>old. old_value rt p s = Inr old
                   \<and> set_many rt beh n p [v1, v1] s =
                       (if strict_eq old v1 then []
                        else map (\<lambda>cb. (cb, v1, old)) (subscribed p s)))))"
proof -
  let ?ks = "butlast (split_dot p)"
  let ?k = "last (split_dot p)"
  from first have s1: "s1 = manager_of (StateManager_set rt beh n p v1 s)"
    by (simp add: manager_of_def)
  from set_passive_frame [of beh v1 p s rt n] pas s1
  have obs: "observers s1 = observers s" and st: "state s1 = state s"
    and len: "length (heap s) \<le> length (heap s1)"
    by simp_all
  from obs have sub: "subscribed p s1 = subscribed p s" and ent: "entries_of p s1 = entries_of p s"
    by (simp_all add: subscribed_def entries_of_def)
  have pas1: "passive_observers beh new old (subscribed p s1)" for new old
    using pas by (simp add: sub)
  have fuel1: "length (entries_of p s1) < n" using fuel by (simp add: ent)
  have top: "container rt p s = Some (state s) \<and> container rt p s1 = Some (state s)"
    if "CHR ''.'' \<notin> set p \<and> state s < length (heap s)"
  proof -
    from that have k: "?ks = []" by (simp add: split_dot_no_dot)
    from that st len show ?thesis by (simp add: container_def k)
  qed
  have main: "old_value rt p s1 = Inr v1
         \<and> subscribed p s1 = subscribed p s
         \<and> (\<not> strict_eq v1 v2 \<longrightarrow>
              (\<exists>e2 s2. StateManager_set rt beh n p v2 s1 = (Inr (), e2, s2)
                 \<and> invocations e2 = map (\<lambda>cb. (cb, v2, v1)) (subscribed p s1)))
         \<and> (observers_ok s \<longrightarrow> distinct (subscribed p s1))
         \<and> (strict_eq v1 v1 \<longrightarrow>
              StateManager_set rt beh n p v1 s1 =
                (Inr (), [], s1\<lparr>heap := snd (walk rt ?ks (JRef (state s1)) (heap s1))\<rparr>)
              \<and> (\<exists>old. old_value rt p s = Inr old
                   \<and> set_many rt beh n p [v1, v1] s =
                       (if strict_eq old v1 then []
                        else map (\<lambda>cb. (cb, v1, old)) (subscribed p s))))"
    if cs: "container rt p s = Some a \<and> container rt p s1 = Some a"
  proof -
    from cs have c0: "container rt p s = Some a" and c1: "container rt p s1 = Some a"
      by simp_all
    from container_SomeD [OF c0] obtain h1 where
      w0: "walk rt ?ks (JRef (state s)) (heap s) = (Inr (JRef a), h1)" and a0: "a < length h1"
      by blast
    have "\<exists>old. get_property rt h1 (JRef a) ?k = Inr old"
    proof (cases "get_property rt h1 (JRef a) ?k")
      case (Inl e)
      with w0 first show ?thesis by (simp add: StateManager_set.simps)
    next
      case (Inr old)
      then show ?thesis by blast
    qed
    then obtain old where rd: "get_property rt h1 (JRef a) ?k = Inr old" by blast
    from old_value_on_object [OF w0] rd have o0: "old_value rt p s = Inr old" by simp
    note so = set_on_object [OF w0 a0 rd pas fuel, of v1]
    have stored: "old_value rt p s1 = Inr v1"
    proof (cases "strict_eq old v1")
      case True
      with so first have e: "s1 = s\<lparr>heap := h1\<rparr>" by simp
      from walk_idem [OF w0]
      have "walk rt ?ks (JRef (state s1)) (heap s1) = (Inr (JRef a), h1)" by (simp add: e)
      from old_value_on_object [OF this] rd True show ?thesis by (simp add: strict_eq_def)
    next
      case False
      let ?h2 = "h1[a := AList.update ?k v1 (h1 ! a)]"
      from so first False have e: "s1 = s\<lparr>heap := ?h2\<rparr>" by simp
      from container_SomeD [OF c1] obtain h3 where
        w1: "walk rt ?ks (JRef (state s1)) (heap s1) = (Inr (JRef a), h3)" and a1: "a < length h3"
        by blast
      have w1': "walk rt ?ks (JRef (state s)) ?h2 = (Inr (JRef a), h3)" using w1 by (simp add: e)
      have "map_of (?h2 ! a) ?k = Some v1" using a0 by (simp add: update_conv')
      from walk_preserves [OF w1' _ this] a0 have "map_of (h3 ! a) ?k = Some v1" by simp
      with old_value_on_object [OF w1] a1 show ?thesis by (simp add: get_property_own)
    qed
    have second: "\<exists>e2 s2. StateManager_set rt beh n p v2 s1 = (Inr (), e2, s2)
                 \<and> invocations e2 = map (\<lambda>cb. (cb, v2, v1)) (subscribed p s1)"
      if ne: "\<not> strict_eq v1 v2"
    proof -
      from set_with_old_value [OF c1 stored pas1 fuel1, of v2] ne
      obtain s2 where "StateManager_set rt beh n p v2 s1 =
          (Inr (),
           Logger (DEBUG, ''State updated: '' @ p, OldNew v1 v2)
             # concat (map (call_passive beh p v2 v1) (subscribed p s1)), s2)"
        by auto
      then show ?thesis by (simp add: invocations_passive)
    qed
    have dist: "distinct (subscribed p s1)" if "observers_ok s"
      using that by (simp add: sub observers_ok_subscribed)
    have again: "StateManager_set rt beh n p v1 s1 =
                (Inr (), [], s1\<lparr>heap := snd (walk rt ?ks (JRef (state s1)) (heap s1))\<rparr>)
              \<and> (\<exists>old. old_value rt p s = Inr old
                   \<and> set_many rt beh n p [v1, v1] s =
                       (if strict_eq old v1 then []
                        else map (\<lambda>cb. (cb, v1, old)) (subscribed p s)))"
      if eq: "strict_eq v1 v1"
    proof -
      from set_with_old_value [OF c1 stored pas1 fuel1, of v1] eq
      obtain h3 where w1: "walk rt ?ks (JRef (state s1)) (heap s1) = (Inr (JRef a), h3)"
        and r: "StateManager_set rt beh n p v1 s1 = (Inr (), [], s1\<lparr>heap := h3\<rparr>)"
        by auto
      from w1 r have r': "StateManager_set rt beh n p v1 s1 =
          (Inr (), [], s1\<lparr>heap := snd (walk rt ?ks (JRef (state s1)) (heap s1))\<rparr>)"
        by simp
      from so first have e1: "e1 = (if strict_eq old v1 then []
          else Logger (DEBUG, ''State updated: '' @ p, OldNew old v1)
                 # concat (map (call_passive beh p v1 old) (subscribed p s)))"
        by (simp split: if_splits)
      have "set_many rt beh n p [v1, v1] s =
          (if strict_eq old v1 then [] else map (\<lambda>cb. (cb, v1, old)) (subscribed p s))"
        using first r e1 by (simp add: effects_of_def manager_of_def invocations_passive)
      with o0 r' show ?thesis by blast
    qed
    from stored sub second dist again show ?thesis by blast
  qed
  from top main show ?thesis by blast
qed

text \<open>
  Counterexamples to claim C1 as stated, with observers 1 and 2 subscribed. Two
  \<open>set('currentView', 'home')\<close> calls on a fresh manager notify nobody (the value is
  already \<open>'home'\<close>); two \<open>set('currentProjectIndex', NaN)\<close> calls notify every observer
  twice (\<open>NaN !== NaN\<close>); and \<open>set('currentView.x', 1)\<close> followed by
  \<open>set('currentView.x', 2)\<close> throws both times and notifies nobody.
\<close>

theorem set_twice_notifications_counterexample:
  "set_many browser_runtime quiet 5 ''currentView'' [JStr ''home'', JStr ''home'']
      (observed ''currentView'') = []
   \<and> set_many browser_runtime quiet 5 ''currentProjectIndex'' [JNaN, JNaN]
        (observed ''currentProjectIndex'')
       = [(1, JNaN, JNum 0), (2, JNaN, JNum 0), (1, JNaN, JNaN), (2, JNaN, JNaN)]
   \<and> fst (StateManager_set browser_runtime quiet 5 ''currentView.x'' (JNum 1)
             (observed ''currentView.x''))
       = Inl (Throws TypeError)
   \<and> set_many browser_runtime quiet 5 ''currentView.x'' [JNum 1, JNum 2]
        (observed ''currentView.x'') = []"
  by (simp add: observed_eq sm_eval quiet_def)

theorem set_twice_notifications_witness:
  "StateManager_set browser_runtime faulty 3 ''animations.starsActive'' (JBool True)
      (observed ''animations.starsActive'')
     = (Inr (),
        [Logger (DEBUG, ''State updated: animations.starsActive'', OldNew (JBool False) (JBool True)),
         Invoke 1 (JBool True) (JBool False),
         Logger (ERROR, ''Error in state observer for animations.starsActive'',
           Caught (Thrown (JStr ''Observer error''))),
         Invoke 2 (JBool True) (JBool False)],
        manager_of (StateManager_set browser_runtime faulty 3 ''animations.starsActive'' (JBool True)
               (observed ''animations.starsActive'')))
   \<and> no_members browser_runtime (split_dot ''animations.starsActive'')
   \<and> (\<forall>new old. passive_observers faulty new old
         (subscribed ''animations.starsActive'' (observed ''animations.starsActive'')))
   \<and> length (entries_of ''animations.starsActive'' (observed ''animations.starsActive'')) < 3
   \<and> container browser_runtime ''animations.starsActive'' (observed ''animations.starsActive'')
       = Some 1
   \<and> container browser_runtime ''animations.starsActive''
        (manager_of (StateManager_set browser_runtime faulty 3 ''animations.starsActive'' (JBool True)
               (observed ''animations.starsActive''))) = Some 1
   \<and> \<not> strict_eq (JBool True) (JBool False)
   \<and> observers_ok (observed ''animations.starsActive'')
   \<and> strict_eq (JBool True) (JBool True)
   \<and> old_value browser_runtime ''animations.starsActive''
        (manager_of (StateManager_set browser_runtime faulty 3 ''animations.starsActive'' (JBool True)
               (observed ''animations.starsActive''))) = Inr (JBool True)
   \<and> (\<exists>e2 s2. StateManager_set browser_runtime faulty 3 ''animations.starsActive'' (JBool False)
         (manager_of (StateManager_set browser_runtime faulty 3 ''animations.starsActive'' (JBool True)
               (observed ''animations.starsActive''))) = (Inr (), e2, s2)
        \<and> invocations e2 = [(1, JBool False, JBool True), (2, JBool False, JBool True)])
   \<and> set_many browser_runtime faulty 3 ''animations.starsActive'' [JBool True, JBool True]
        (observed ''animations.starsActive'')
       = [(1, JBool True, JBool False), (2, JBool True, JBool False)]
   \<and> StateManager_set browser_runtime quiet 3 ''theme'' (JStr ''light'') (observed ''theme'')
       = (Inr (),
          [Logger (DEBUG, ''State updated: theme'', OldNew (JStr ''dark'') (JStr ''light'')),
           Invoke 1 (JStr ''light'') (JStr ''dark''), Invoke 2 (JStr ''light'') (JStr ''dark'')],
          manager_of (StateManager_set browser_runtime quiet 3 ''theme'' (JStr ''light'')
            (observed ''theme'')))
   \<and> no_members browser_runtime (split_dot ''theme'')
   \<and> (\<forall>new old. passive_observers quiet new old (subscribed ''theme'' (observed ''theme'')))
   \<and> length (entries_of ''theme'' (observed ''theme'')) < 3
   \<and> CHR ''.'' \<notin> set ''theme''
   \<and> state (observed ''theme'') < length (heap (observed ''theme''))
   \<and> container browser_runtime ''theme'' (observed ''theme'') = Some 0
   \<and> container browser_runtime ''theme''
        (manager_of (StateManager_set browser_runtime quiet 3 ''theme'' (JStr ''light'')
            (observed ''theme''))) = Some 0"
proof -
  let ?p = "''animations.starsActive''"
  let ?s = "observed ?p"
  let ?r = "StateManager_set browser_runtime faulty 3 ?p (JBool True) ?s"
  let ?e1 = "[Logger (DEBUG, ''State updated: animations.starsActive'', OldNew (JBool False) (JBool True)),
         Invoke 1 (JBool True) (JBool False),
         Logger (ERROR, ''Error in state observer for animations.starsActive'',
           Caught (Thrown (JStr ''Observer error''))),
         Invoke 2 (JBool True) (JBool False)]"
  have first: "?r = (Inr (), ?e1, manager_of ?r)"
    by (simp add: observed_eq sm_eval faulty_def)
  have nm: "no_members browser_runtime (split_dot ?p)"
    by (simp add: no_members_def sm_eval)
  have sub: "subscribed ?p ?s = [1, 2]" by (simp add: observed_eq sm_eval)
  have pas: "passive_observers faulty new old (subscribed ?p ?s)" for new old
    unfolding sub by (simp add: passive_observers_def faulty_def)
  have fuel: "length (entries_of ?p ?s) < 3" by (simp add: observed_eq sm_eval)
  have c0: "container browser_runtime ?p ?s = Some 1"
    by (simp add: observed_eq sm_eval)
  have c1: "container browser_runtime ?p (manager_of ?r) = Some 1"
    by (simp add: observed_eq sm_eval faulty_def)
  have ne: "\<not> strict_eq (JBool True) (JBool False)" and eq: "strict_eq (JBool True) (JBool True)"
    by (simp_all add: strict_eq_def)
  have ok: "observers_ok ?s" by (simp add: observed_eq sm_eval)
  have o0: "old_value browser_runtime ?p ?s = Inr (JBool False)"
    by (simp add: observed_eq sm_eval)
  note main = set_twice_notifications [OF first nm pas fuel, of 1 "JBool False"]
  from main c0 c1 have r1: "old_value browser_runtime ?p (manager_of ?r) = Inr (JBool True)"
    by blast
  from main c0 c1 have sub1: "subscribed ?p (manager_of ?r) = subscribed ?p ?s"
    by blast
  from main c0 c1 ne
  have "\<exists>e2 s2. StateManager_set browser_runtime faulty 3 ?p (JBool False) (manager_of ?r)
          = (Inr (), e2, s2)
        \<and> invocations e2 = map (\<lambda>cb. (cb, JBool False, JBool True)) (subscribed ?p (manager_of ?r))"
    by blast
  then have r2: "\<exists>e2 s2. StateManager_set browser_runtime faulty 3 ?p (JBool False) (manager_of ?r)
          = (Inr (), e2, s2)
        \<and> invocations e2 = [(1, JBool False, JBool True), (2, JBool False, JBool True)]"
    unfolding sub1 sub by simp
  from main c0 c1 eq
  have "\<exists>old. old_value browser_runtime ?p ?s = Inr old
         \<and> set_many browser_runtime faulty 3 ?p [JBool True, JBool True] ?s =
             (if strict_eq old (JBool True) then []
              else map (\<lambda>cb. (cb, JBool True, old)) (subscribed ?p ?s))"
    by blast
  then have r3: "set_many browser_runtime faulty 3 ?p [JBool True, JBool True] ?s
       = [(1, JBool True, JBool False), (2, JBool True, JBool False)]"
    unfolding sub o0 by (auto simp add: strict_eq_def)
  let ?t = "observed ''theme''"
  let ?q = "StateManager_set browser_runtime quiet 3 ''theme'' (JStr ''light'') ?t"
  let ?e = "[Logger (DEBUG, ''State updated: theme'', OldNew (JStr ''dark'') (JStr ''light'')),
           Invoke 1 (JStr ''light'') (JStr ''dark''), Invoke 2 (JStr ''light'') (JStr ''dark'')]"
  have tfirst: "?q = (Inr (), ?e, manager_of ?q)"
    by (simp add: observed_eq sm_eval quiet_def)
  have tnm: "no_members browser_runtime (split_dot ''theme'')"
    by (simp add: no_members_def sm_eval)
  have tsub: "subscribed ''theme'' ?t = [1, 2]" by (simp add: observed_eq sm_eval)
  have tpas: "passive_observers quiet new old (subscribed ''theme'' ?t)" for new old
    unfolding tsub by (simp add: passive_observers_def quiet_def)
  have tfuel: "length (entries_of ''theme'' ?t) < 3" by (simp add: observed_eq sm_eval)
  have nodot: "CHR ''.'' \<notin> set ''theme''" by simp
  have root: "state ?t < length (heap ?t)" by (simp add: observed_eq sm_eval)
  have st: "state ?t = 0" by (simp add: observed_eq sm_eval)
  from set_twice_notifications [OF tfirst tnm tpas tfuel] nodot root
  have "container browser_runtime ''theme'' ?t = Some (state ?t)
      \<and> container browser_runtime ''theme'' (manager_of ?q) = Some (state ?t)"
    by blast
  then have r4: "container browser_runtime ''theme'' ?t = Some 0"
    and r5: "container browser_runtime ''theme'' (manager_of ?q) = Some 0"
    unfolding st by simp_all
  from first nm pas fuel c0 c1 ne ok eq r1 r2 r3 tfirst tnm tpas tfuel nodot root r4 r5
  show ?thesis by blast
qed

lemma set_stores_on_objects:
  assumes o: "objects_along (heap s) (JRef (state s)) (butlast (split_dot key))"
    and m: "no_members rt (split_dot key)"
    and pas: "\<And>old. passive_observers beh v old (subscribed key s)"
    and fuel: "length (entries_of key s) < n"
  shows "\<exists>a effs s'. container rt key s = Some a
     \<and> StateManager_set rt beh n key v s = (Inr (), effs, s')
     \<and> get_property rt (heap s') (JRef a) (last (split_dot key)) = Inr v
     \<and> (last (split_dot key) \<notin> set (butlast (split_dot key)) \<longrightarrow>
          StateManager_get rt key s' = Inr v)"
proof -
  let ?ks = "butlast (split_dot key)"
  let ?k = "last (split_dot key)"
  from walk_objects_along [OF o no_members_butlast [OF m]] obtain a h1 where
    w: "walk rt ?ks (JRef (state s)) (heap s) = (Inr (JRef a), h1)"
    and a: "a < length h1" by blast
  from w a have c: "container rt key s = Some a" by (simp add: container_def)
  from no_members_last [OF m split_dot_nonempty] have k: "\<not> object_member rt ?k" .
  have "\<exists>old. get_property rt h1 (JRef a) ?k = Inr old"
    using a k by (simp add: get_property_def split: option.splits)
  then obtain old where rd: "get_property rt h1 (JRef a) ?k = Inr old" by blast
  note so = set_on_object [OF w a rd pas fuel]
  from a have "is_object h1 (JRef a)" by (simp add: is_object_def)
  from walk_reads_back [OF w this]
  have path: "get_loop rt h1 (JRef (state s)) ?ks = Inr (JRef a)" .
  show ?thesis
  proof (cases "strict_eq old v")
    case True
    then have ov: "old = v" by (simp add: strict_eq_def)
    have "get_loop rt h1 (JRef (state s)) (?ks @ [?k]) = get_loop rt h1 (JRef a) [?k]"
      using path by (rule get_loop_append) simp
    also have "\<dots> = Inr v" using rd ov by (simp add: get_loop_last)
    finally have "StateManager_get rt key (s\<lparr>heap := h1\<rparr>) = Inr v"
      by (simp add: StateManager_get_def keys_split)
    with so True c rd ov show ?thesis by simp
  next
    case False
    let ?h2 = "h1[a := AList.update ?k v (h1 ! a)]"
    have stored: "get_property rt ?h2 (JRef a) ?k = Inr v"
      using a by (rule get_property_update)
    have "StateManager_get rt key (s\<lparr>heap := ?h2\<rparr>) = Inr v" if fresh: "?k \<notin> set ?ks"
    proof -
      from fresh path have "get_loop rt ?h2 (JRef (state s)) ?ks = Inr (JRef a)"
        by (simp add: get_loop_frame)
      then have "get_loop rt ?h2 (JRef (state s)) (?ks @ [?k]) = get_loop rt ?h2 (JRef a) [?k]"
        by (rule get_loop_append) simp
      also have "\<dots> = Inr v" using stored by (simp add: get_loop_last)
      finally show ?thesis by (simp add: StateManager_get_def keys_split)
    qed
    with so False c stored show ?thesis by simp
  qed
qed

lemma set_creates_chain:
  assumes root: "state s < length (heap s)"
    and absent: "map_of (heap s ! state s) (hd (split_dot key)) = None"
    and m: "no_members rt (split_dot key)"
    and pas: "\<And>old. passive_observers beh v old (subscribed key s)"
    and fuel: "length (entries_of key s) < n"
  shows "\<exists>effs s'. StateManager_set rt beh n key v s = (Inr (), effs, s')
      \<and> length (heap s') = length (heap s) + length (butlast (split_dot key))
      \<and> StateManager_get rt key s' = Inr v"
proof -
  let ?ks = "butlast (split_dot key)"
  let ?k = "last (split_dot key)"
  have pre: "?ks \<noteq> [] \<longrightarrow> map_of (heap s ! state s) (hd ?ks) = None"
    using absent by (simp add: hd_butlast_keys)
  from walk_chain [OF root pre no_members_butlast [OF m]] obtain a' h' where
    w: "walk rt ?ks (JRef (state s)) (heap s) = (Inr (JRef a'), h')"
    and len: "length h' = length (heap s) + length ?ks"
    and a': "a' < length h'"
    and rd: "get_loop rt h' (JRef (state s)) ?ks = Inr (JRef a')"
    and rd2: "\<forall>k v. get_loop rt (h'[a' := AList.update k v (h' ! a')]) (JRef (state s)) ?ks = Inr (JRef a')"
    by blast
  from no_members_last [OF m split_dot_nonempty] have k: "\<not> object_member rt ?k" .
  have "\<exists>old. get_property rt h' (JRef a') ?k = Inr old"
    using a' k by (simp add: get_property_def split: option.splits)
  then obtain old where o: "get_property rt h' (JRef a') ?k = Inr old" by blast
  note so = set_on_object [OF w a' o pas fuel]
  show ?thesis
  proof (cases "strict_eq old v")
    case True
    then have ov: "old = v" by (simp add: strict_eq_def)
    have "get_loop rt h' (JRef (state s)) (?ks @ [?k]) = get_loop rt h' (JRef a') [?k]"
      using rd by (rule get_loop_append) simp
    also have "\<dots> = Inr v" using o ov by (simp add: get_loop_last)
    finally have "StateManager_get rt key (s\<lparr>heap := h'\<rparr>) = Inr v"
      by (simp add: StateManager_get_def keys_split)
    with so True len show ?thesis by simp
  next
    case False
    let ?h2 = "h'[a' := AList.update ?k v (h' ! a')]"
    have r: "get_loop rt ?h2 (JRef (state s)) ?ks = Inr (JRef a')" using rd2 by blast
    have "get_loop rt ?h2 (JRef (state s)) (?ks @ [?k]) = get_loop rt ?h2 (JRef a') [?k]"
      using r by (rule get_loop_append) simp
    also have "\<dots> = Inr v" using a' by (simp add: get_loop_last get_property_update)
    finally have "StateManager_get rt key (s\<lparr>heap := ?h2\<rparr>) = Inr v"
      by (simp add: StateManager_get_def keys_split)
    with so False len show ?thesis by simp
  qed
qed

lemma set_throws_before_segment:
  assumes "butlast (split_dot key) = ks1 @ k # ks2"
    and "walk rt ks1 (JRef (state s)) (heap s) = (Inr t, h1)"
    and "\<not> is_object h1 t"
  shows "fst (StateManager_set rt beh n key v s) = Inl (Throws TypeError)"
  using assms by (simp add: StateManager_set.simps walk_append walk_Cons_nonobj)

lemma set_throws_at_container:
  assumes "walk rt (butlast (split_dot key)) (JRef (state s)) (heap s) = (Inr t, h1)"
    and "\<not> is_object h1 t"
    and "v \<noteq> JUndefined"
    and "\<not> member_of_primitive rt (last (split_dot key))"
  shows "fst (StateManager_set rt beh n key v s) = Inl (Throws TypeError)"
  using assms
  by (cases t)
    (auto simp add: StateManager_set.simps get_property_def put_property_def strict_eq_def
      is_object_def)

text \<open>
  Claim C4, as amended. \<open>get\<close> returns for every path none of whose segments names a
  member that objects or primitives have without having been given it, and for every path
  it returns \<open>undefined\<close> when some segment, no such name, is absent at the value reached
  by the segments before it. Let every segment before the last that is present hold an
  object, let no segment name a member that objects inherit, and let the observers
  subscribed to the path be passive (they return or throw, and do not call back into the
  manager). Then \<open>set\<close> returns; the object reached by the segments before the last,
  missing ones created on the way, holds the value at the last segment; and \<open>get\<close>
  reads the value back when the last segment does not occur among the segments before it.
  When moreover the first segment is absent from the state object, \<open>set\<close> creates one
  object per segment before the last, and \<open>get\<close> reads the value back. \<open>set\<close> throws
  a \<open>TypeError\<close> when the value reached before a segment other than the last is not an
  object, and when the value that should hold the last segment is not an object, the value
  to store is not \<open>undefined\<close> and the last segment names no member of primitives.
\<close>

theorem get_set_failure_semantics:
  "(plain_path rt key \<longrightarrow> (\<exists>r. StateManager_get rt key s = Inr r))
   \<and> (split_dot key = ks @ k # ks' \<and> get_loop rt (heap s) (JRef (state s)) ks = Inr w
        \<and> lacks (heap s) w k \<and> \<not> member_of_primitive rt k \<longrightarrow>
        StateManager_get rt key s = Inr JUndefined)
   \<and> (objects_along (heap s) (JRef (state s)) (butlast (split_dot key))
        \<and> no_members rt (split_dot key)
        \<and> (\<forall>old. passive_observers beh v old (subscribed key s))
        \<and> length (entries_of key s) < n \<longrightarrow>
        (\<exists>a effs s'. container rt key s = Some a
           \<and> StateManager_set rt beh n key v s = (Inr (), effs, s')
           \<and> get_property rt (heap s') (JRef a) (last (split_dot key)) = Inr v
           \<and> (last (split_dot key) \<notin> set (butlast (split_dot key)) \<longrightarrow>
                StateManager_get rt key s' = Inr v)))
   \<and> (state s < length (heap s) \<and> map_of (heap s ! state s) (hd (split_dot key)) = None
        \<and> no_members rt (split_dot key)
        \<and> (\<forall>old. passive_observers beh v old (subscribed key s))
        \<and> length (entries_of key s) < n \<longrightarrow>
        (\<exists>effs s'. StateManager_set rt beh n key v s = (Inr (), effs, s')
           \<and> length (heap s') = length (heap s) + length (butlast (split_dot key))
           \<and> StateManager_get rt key s' = Inr v))
   \<and> (butlast (split_dot key) = ks1 @ k1 # ks2
        \<and> walk rt ks1 (JRef (state s)) (heap s) = (Inr t, h1) \<and> \<not> is_object h1 t \<longrightarrow>
        fst (StateManager_set rt beh n key v s) = Inl (Throws TypeError))
   \<and> (walk rt (butlast (split_dot key)) (JRef (state s)) (heap s) = (Inr t, h1)
        \<and> \<not> is_object h1 t \<and> v \<noteq> JUndefined
        \<and> \<not> member_of_primitive rt (last (split_dot key)) \<longrightarrow>
        fst (StateManager_set rt beh n key v s) = Inl (Throws TypeError))"
proof (intro conjI impI)
  assume "plain_path rt key"
  then show "\<exists>r. StateManager_get rt key s = Inr r"
    unfolding StateManager_get_def plain_path_def by (rule get_loop_total)
next
  assume "split_dot key = ks @ k # ks' \<and> get_loop rt (heap s) (JRef (state s)) ks = Inr w
        \<and> lacks (heap s) w k \<and> \<not> member_of_primitive rt k"
  then show "StateManager_get rt key s = Inr JUndefined"
    unfolding StateManager_get_def
    using get_loop_absent [of rt "heap s" "JRef (state s)" ks w k ks']
    by simp
next
  assume "objects_along (heap s) (JRef (state s)) (butlast (split_dot key))
        \<and> no_members rt (split_dot key)
        \<and> (\<forall>old. passive_observers beh v old (subscribed key s))
        \<and> length (entries_of key s) < n"
  then show "\<exists>a effs s'. container rt key s = Some a
           \<and> StateManager_set rt beh n key v s = (Inr (), effs, s')
           \<and> get_property rt (heap s') (JRef a) (last (split_dot key)) = Inr v
           \<and> (last (split_dot key) \<notin> set (butlast (split_dot key)) \<longrightarrow>
                StateManager_get rt key s' = Inr v)"
    using set_stores_on_objects [of s key rt beh v n] by blast
next
  assume "state s < length (heap s) \<and> map_of (heap s ! state s) (hd (split_dot key)) = None
        \<and> no_members rt (split_dot key)
        \<and> (\<forall>old. passive_observers beh v old (subscribed key s))
        \<and> length (entries_of key s) < n"
  then show "\<exists>effs s'. StateManager_set rt beh n key v s = (Inr (), effs, s')
           \<and> length (heap s') = length (heap s) + length (butlast (split_dot key))
           \<and> StateManager_get rt key s' = Inr v"
    using set_creates_chain [of s key rt beh v n] by blast
next
  assume "butlast (split_dot key) = ks1 @ k1 # ks2
        \<and> walk rt ks1 (JRef (state s)) (heap s) = (Inr t, h1) \<and> \<not> is_object h1 t"
  then show "fst (StateManager_set rt beh n key v s) = Inl (Throws TypeError)"
    using set_throws_before_segment by blast
next
  assume "walk rt (butlast (split_dot key)) (JRef (state s)) (heap s) = (Inr t, h1)
        \<and> \<not> is_object h1 t \<and> v \<noteq> JUndefined
        \<and> \<not> member_of_primitive rt (last (split_dot key))"
  then show "fst (StateManager_set rt beh n key v s) = Inl (Throws TypeError)"
    using set_throws_at_container by blast
qed

text \<open>
  Counterexample to claim C4 as stated: on a fresh manager, \<open>set('currentView.x', 1)\<close>
  throws a \<open>TypeError\<close>, because \<open>currentView\<close> holds the string \<open>'home'\<close> and strict
  code cannot create a property on a string.
\<close>

theorem set_throws_on_primitive_container:
  "StateManager_set browser_runtime quiet 5 ''currentView.x'' (JNum 1) StateManager_new
     = (Inl (Throws TypeError), [], StateManager_new)"
  by (simp add: sm_eval)

theorem get_set_failure_semantics_witness:
  "plain_path browser_runtime ''animations.starsActive''
   \<and> (\<exists>r. StateManager_get browser_runtime ''animations.starsActive'' StateManager_new = Inr r)
   \<and> split_dot ''animations.nonExistent'' = [''animations''] @ ''nonExistent'' # []
   \<and> get_loop browser_runtime (heap StateManager_new) (JRef (state StateManager_new)) [''animations'']
       = Inr (JRef 1)
   \<and> lacks (heap StateManager_new) (JRef 1) ''nonExistent''
   \<and> \<not> member_of_primitive browser_runtime ''nonExistent''
   \<and> StateManager_get browser_runtime ''animations.nonExistent'' StateManager_new = Inr JUndefined
   \<and> objects_along (heap (observed ''animations.extra.key'')) (JRef (state (observed ''animations.extra.key'')))
        (butlast (split_dot ''animations.extra.key''))
   \<and> no_members browser_runtime (split_dot ''animations.extra.key'')
   \<and> (\<forall>old. passive_observers faulty (JNum 4) old
         (subscribed ''animations.extra.key'' (observed ''animations.extra.key'')))
   \<and> length (entries_of ''animations.extra.key'' (observed ''animations.extra.key'')) < 3
   \<and> last (split_dot ''animations.extra.key'') \<notin> set (butlast (split_dot ''animations.extra.key''))
   \<and> (\<exists>a effs s'. container browser_runtime ''animations.extra.key'' (observed ''animations.extra.key'')
          = Some a
        \<and> StateManager_set browser_runtime faulty 3 ''animations.extra.key'' (JNum 4)
            (observed ''animations.extra.key'') = (Inr (), effs, s')
        \<and> get_property browser_runtime (heap s') (JRef a) ''key'' = Inr (JNum 4)
        \<and> StateManager_get browser_runtime ''animations.extra.key'' s' = Inr (JNum 4))
   \<and> state StateManager_new < length (heap StateManager_new)
   \<and> map_of (heap StateManager_new ! state StateManager_new) (hd (split_dot ''newObject.newKey''))
       = None
   \<and> no_members browser_runtime (split_dot ''newObject.newKey'')
   \<and> (\<forall>old. passive_observers quiet (JStr ''value'') old (subscribed ''newObject.newKey'' StateManager_new))
   \<and> length (entries_of ''newObject.newKey'' StateManager_new) < 3
   \<and> (\<exists>effs s'. StateManager_set browser_runtime quiet 3 ''newObject.newKey'' (JStr ''value'')
                   StateManager_new
          = (Inr (), effs, s')
        \<and> length (heap s') = 3
        \<and> StateManager_get browser_runtime ''newObject.newKey'' s' = Inr (JStr ''value''))
   \<and> butlast (split_dot ''currentView.a.b'') = [''currentView''] @ ''a'' # []
   \<and> walk browser_runtime [''currentView''] (JRef (state StateManager_new)) (heap StateManager_new)
       = (Inr (JStr ''home''), heap StateManager_new)
   \<and> \<not> is_object (heap StateManager_new) (JStr ''home'')
   \<and> fst (StateManager_set browser_runtime quiet 3 ''currentView.a.b'' (JNum 1) StateManager_new)
       = Inl (Throws TypeError)
   \<and> walk browser_runtime (butlast (split_dot ''currentView.x'')) (JRef (state StateManager_new))
         (heap StateManager_new)
       = (Inr (JStr ''home''), heap StateManager_new)
   \<and> JNum 1 \<noteq> JUndefined
   \<and> \<not> member_of_primitive browser_runtime (last (split_dot ''currentView.x''))
   \<and> fst (StateManager_set browser_runtime quiet 3 ''currentView.x'' (JNum 1) StateManager_new)
       = Inl (Throws TypeError)"
proof -
  let ?rt = browser_runtime
  let ?new = StateManager_new
  let ?obs = "observed ''animations.extra.key''"
  have p: "plain_path ?rt ''animations.starsActive''"
    by (simp add: plain_path_def sm_eval)
  have a: "split_dot ''animations.nonExistent'' = [''animations''] @ ''nonExistent'' # []
     \<and> get_loop ?rt (heap ?new) (JRef (state ?new)) [''animations''] = Inr (JRef 1)
     \<and> lacks (heap ?new) (JRef 1) ''nonExistent''
     \<and> \<not> member_of_primitive ?rt ''nonExistent''"
    by (simp add: lacks_def sm_eval)
  have b: "objects_along (heap ?obs) (JRef (state ?obs)) (butlast (split_dot ''animations.extra.key''))
     \<and> no_members ?rt (split_dot ''animations.extra.key'')"
    by (simp add: observed_eq no_members_def is_object_def sm_eval)
  have sub: "subscribed ''animations.extra.key'' ?obs = [1, 2]"
    by (simp add: observed_eq sm_eval)
  have bp: "(\<forall>old. passive_observers faulty (JNum 4) old (subscribed ''animations.extra.key'' ?obs))
     \<and> length (entries_of ''animations.extra.key'' ?obs) < 3"
    unfolding sub by (simp add: observed_eq passive_observers_def faulty_def sm_eval)
  have k: "last (split_dot ''animations.extra.key'') = ''key''" by simp
  have fresh: "last (split_dot ''animations.extra.key'')
      \<notin> set (butlast (split_dot ''animations.extra.key''))"
    by simp
  have c: "state ?new < length (heap ?new)
      \<and> map_of (heap ?new ! state ?new) (hd (split_dot ''newObject.newKey'')) = None
      \<and> no_members ?rt (split_dot ''newObject.newKey'')
      \<and> (\<forall>old. passive_observers quiet (JStr ''value'') old (subscribed ''newObject.newKey'' ?new))
      \<and> length (entries_of ''newObject.newKey'' ?new) < 3"
    by (simp add: no_members_def passive_observers_def quiet_def sm_eval)
  have l: "length (heap ?new) + length (butlast (split_dot ''newObject.newKey'')) = 3"
    by (simp add: StateManager_new_def)
  have d: "butlast (split_dot ''currentView.a.b'') = [''currentView''] @ ''a'' # []
      \<and> walk ?rt [''currentView''] (JRef (state ?new)) (heap ?new) = (Inr (JStr ''home''), heap ?new)
      \<and> \<not> is_object (heap ?new) (JStr ''home'')"
    by (simp add: is_object_def sm_eval)
  have e: "walk ?rt (butlast (split_dot ''currentView.x'')) (JRef (state ?new)) (heap ?new)
       = (Inr (JStr ''home''), heap ?new)
      \<and> \<not> is_object (heap ?new) (JStr ''home'') \<and> JNum 1 \<noteq> JUndefined
      \<and> \<not> member_of_primitive ?rt (last (split_dot ''currentView.x''))"
    by (simp add: is_object_def sm_eval)
  from p get_set_failure_semantics [where rt = ?rt and key = "''animations.starsActive''" and s = ?new]
  have r0: "\<exists>r. StateManager_get ?rt ''animations.starsActive'' ?new = Inr r"
    by blast
  from a get_set_failure_semantics
    [where rt = ?rt and key = "''animations.nonExistent''" and s = ?new and ks = "[''animations'']"
       and k = "''nonExistent''" and ks' = "[]" and w = "JRef 1"]
  have r1: "StateManager_get ?rt ''animations.nonExistent'' ?new = Inr JUndefined"
    by blast
  note at_extra = get_set_failure_semantics
    [where rt = ?rt and key = "''animations.extra.key''" and s = ?obs and beh = faulty and n = 3
       and v = "JNum 4"]
  from b bp fresh at_extra
  have "\<exists>a effs s'. container ?rt ''animations.extra.key'' ?obs = Some a
        \<and> StateManager_set ?rt faulty 3 ''animations.extra.key'' (JNum 4) ?obs = (Inr (), effs, s')
        \<and> get_property ?rt (heap s') (JRef a) (last (split_dot ''animations.extra.key'')) = Inr (JNum 4)
        \<and> StateManager_get ?rt ''animations.extra.key'' s' = Inr (JNum 4)"
    by blast
  then have r3: "\<exists>a effs s'. container ?rt ''animations.extra.key'' ?obs = Some a
        \<and> StateManager_set ?rt faulty 3 ''animations.extra.key'' (JNum 4) ?obs = (Inr (), effs, s')
        \<and> get_property ?rt (heap s') (JRef a) ''key'' = Inr (JNum 4)
        \<and> StateManager_get ?rt ''animations.extra.key'' s' = Inr (JNum 4)"
    unfolding k .
  from c get_set_failure_semantics
    [where rt = ?rt and key = "''newObject.newKey''" and s = ?new and beh = quiet and n = 3
       and v = "JStr ''value''"]
  have r4: "\<exists>effs s'. StateManager_set ?rt quiet 3 ''newObject.newKey'' (JStr ''value'') ?new
          = (Inr (), effs, s')
        \<and> length (heap s') = 3
        \<and> StateManager_get ?rt ''newObject.newKey'' s' = Inr (JStr ''value'')"
    unfolding l [symmetric] by blast
  from d get_set_failure_semantics
    [where rt = ?rt and key = "''currentView.a.b''" and s = ?new and beh = quiet and n = 3
       and v = "JNum 1" and ?ks1.0 = "[''currentView'']" and ?k1.0 = "''a''" and ?ks2.0 = "[]"
       and t = "JStr ''home''" and ?h1.0 = "heap ?new"]
  have r5: "fst (StateManager_set ?rt quiet 3 ''currentView.a.b'' (JNum 1) ?new)
      = Inl (Throws TypeError)"
    by blast
  from e get_set_failure_semantics
    [where rt = ?rt and key = "''currentView.x''" and s = ?new and beh = quiet and n = 3
       and v = "JNum 1" and t = "JStr ''home''" and ?h1.0 = "heap ?new"]
  have r6: "fst (StateManager_set ?rt quiet 3 ''currentView.x'' (JNum 1) ?new)
      = Inl (Throws TypeError)"
    by blast
  from p a b bp fresh c d e r0 r1 r3 r4 r5 r6 show ?thesis by blast
qed

section \<open>Properties of the logger\<close>

lemma Logger_call_shape:
  "entries (Logger_call prop lg c) = entries lg @ [entry_of prop c]
   \<and> arrays (Logger_call prop lg c) =
        arrays (addToHistory (length (entries lg)) lg)
   \<and> logs (Logger_call prop lg c) = logs lg
   \<and> maxLogs (Logger_call prop lg c) = maxLogs lg
   \<and> isDevelopment (Logger_call prop lg c) = isDevelopment lg"
proof -
  obtain b call where c: "c = (b, call)" by (cases c)
  show ?thesis
    by (cases call)
      (simp_all add: c Logger_debug_def Logger_info_def Logger_warn_def Logger_error_def
        formatLog_def addToHistory_def Let_def)
qed

lemma Logger_calls_snoc:
  "Logger_calls prop (cs @ [c]) lg = Logger_call prop (Logger_calls prop cs lg) c"
  by (simp add: Logger_calls_def)

lemma upt_window_step:
  "(if length ([n - 100..<n] @ [n]) > 100 then tl ([n - 100..<n] @ [n]) else [n - 100..<n] @ [n])
     = [Suc n - 100..<Suc n]"
proof -
  have "[n - 100..<n] @ [n] = [n - 100..<Suc n]" by simp
  moreover have "tl [n - 100..<Suc n] = [Suc (n - 100)..<Suc n]" by (rule tl_upt)
  moreover have "100 \<le> n \<Longrightarrow> Suc (n - 100) = Suc n - 100" by simp
  ultimately show ?thesis by (cases "100 \<le> n") (simp_all del: upt_Suc)
qed

lemma Logger_calls_new:
  "logs (Logger_calls prop cs (Logger_new host)) = 0
   \<and> length (arrays (Logger_calls prop cs (Logger_new host))) = 1
   \<and> maxLogs (Logger_calls prop cs (Logger_new host)) = 100
   \<and> entries (Logger_calls prop cs (Logger_new host)) = map (entry_of prop) cs
   \<and> arrays (Logger_calls prop cs (Logger_new host)) ! 0 = [length cs - 100..<length cs]"
proof (induction cs rule: rev_induct)
  case Nil
  show ?case by (simp add: Logger_calls_def Logger_new_def)
next
  case (snoc c cs)
  let ?lg = "Logger_calls prop cs (Logger_new host)"
  note shp = Logger_call_shape [of "prop" "?lg" c]
  from snoc have l: "logs ?lg = 0" and n: "length (arrays ?lg) = 1" and m: "maxLogs ?lg = 100"
    and e: "entries ?lg = map (entry_of prop) cs"
    and a: "arrays ?lg ! 0 = [length cs - 100..<length cs]" by simp_all
  have "arrays (addToHistory (length (entries ?lg)) ?lg) ! 0 = [Suc (length cs) - 100..<Suc (length cs)]"
    using n upt_window_step [of "length cs"]
    by (simp add: addToHistory_def Let_def l m e a del: upt_Suc)
  moreover have "length (arrays (addToHistory (length (entries ?lg)) ?lg)) = 1"
    using n by (simp add: addToHistory_def Let_def)
  ultimately show ?case
    using shp l m e by (simp add: Logger_calls_snoc del: upt_Suc)
qed

lemma map_nth_window: "i \<le> length xs \<Longrightarrow> map ((!) xs) [i..<length xs] = drop i xs"
proof -
  have "drop i xs = drop i (map ((!) xs) [0..<length xs])" by (simp add: map_nth)
  also have "\<dots> = map ((!) xs) (drop i [0..<length xs])" by (simp add: drop_map)
  also have "\<dots> = map ((!) xs) [i..<length xs]" by (simp add: drop_upt)
  finally show ?thesis by simp
qed

lemma addToHistory_bound:
  assumes "logs lg < length (arrays lg)" and "length (arrays lg ! logs lg) \<le> maxLogs lg"
  shows "length (arrays (addToHistory e lg) ! logs (addToHistory e lg)) \<le> maxLogs (addToHistory e lg)"
  using assms by (simp add: addToHistory_def Let_def)

text \<open>
  Claim C5. After any sequence \<open>cs\<close> of \<open>debug\<close>, \<open>info\<close>, \<open>warn\<close> and \<open>error\<close> calls
  on a new logger, the internal array holds at most 100 entries: the entries of the last
  \<open>min (length cs) 100\<close> calls, in the order of the calls. In particular after 100 + 50
  calls it holds exactly the entries of the last 100, the first 50 having been dropped from
  the front. The bound is also kept by every single logging call on any logger that
  satisfies it.
\<close>

theorem log_history_bounded_fifo:
  "length (arrays (Logger_calls prop cs (Logger_new host))
            ! logs (Logger_calls prop cs (Logger_new host))) \<le> 100
   \<and> length (history (Logger_calls prop cs (Logger_new host))) = min (length cs) 100
   \<and> history (Logger_calls prop cs (Logger_new host))
        = map (entry_of prop) (drop (length cs - 100) cs)
   \<and> (length cs = 100 + 50 \<longrightarrow>
        history (Logger_calls prop cs (Logger_new host)) = map (entry_of prop) (drop 50 cs)
        \<and> length (history (Logger_calls prop cs (Logger_new host))) = 100)
   \<and> (logs lg < length (arrays lg) \<and> length (arrays lg ! logs lg) \<le> maxLogs lg \<longrightarrow>
        length (arrays (Logger_call prop lg c) ! logs (Logger_call prop lg c))
          \<le> maxLogs (Logger_call prop lg c))"
proof -
  let ?lg = "Logger_calls prop cs (Logger_new host)"
  note invs = Logger_calls_new [of "prop" cs host]
  from invs have a: "arrays ?lg ! logs ?lg = [length cs - 100..<length cs]" by simp
  from invs have e: "entries ?lg = map (entry_of prop) cs" by simp
  have h: "history ?lg = map (entry_of prop) (drop (length cs - 100) cs)"
  proof -
    have "history ?lg = map ((!) (map (entry_of prop) cs)) [length cs - 100..<length (map (entry_of prop) cs)]"
      by (simp add: history_def a e del: upt_Suc)
    also have "\<dots> = drop (length cs - 100) (map (entry_of prop) cs)"
      by (rule map_nth_window) simp
    finally show ?thesis by (simp add: drop_map)
  qed
  have b: "length (arrays ?lg ! logs ?lg) \<le> 100" unfolding a by simp
  have l: "length (history ?lg) = min (length cs) 100" unfolding h by simp
  have s: "length cs = 100 + 50 \<longrightarrow>
        history ?lg = map (entry_of prop) (drop 50 cs) \<and> length (history ?lg) = 100"
    using h l by simp
  have i: "logs lg < length (arrays lg) \<and> length (arrays lg ! logs lg) \<le> maxLogs lg \<longrightarrow>
        length (arrays (Logger_call prop lg c) ! logs (Logger_call prop lg c))
          \<le> maxLogs (Logger_call prop lg c)"
    using Logger_call_shape [of "prop" lg c] addToHistory_bound [of lg "length (entries lg)"]
    by (simp add: addToHistory_def Let_def)
  from b l h s i show ?thesis by blast
qed

lemma one_info_eq:
  "one_info =
     \<lparr>entries = [\<lparr>timestamp = ''2024-01-01T12:00:00.000Z'', level = INFO, message = ''Test'',
                   data = Data JNull, url = ''https://example.org/''\<rparr>],
      arrays = [[0]], logs = 0, maxLogs = 100, isDevelopment = False, console = []\<rparr>"
  by (simp add: one_info_def Logger_info_def Logger_new_def formatLog_def addToHistory_def
      at_noon_def default_null_def Let_def)

theorem log_history_bounded_fifo_witness:
  "length (numbered_calls 150) = 100 + 50
   \<and> history (Logger_calls plain (numbered_calls 150) (Logger_new ''localhost''))
       = map (entry_of plain) (drop 50 (numbered_calls 150))
   \<and> length (history (Logger_calls plain (numbered_calls 150) (Logger_new ''localhost''))) = 100
   \<and> logs one_info < length (arrays one_info)
   \<and> length (arrays one_info ! logs one_info) \<le> maxLogs one_info
   \<and> length (arrays (Logger_call plain one_info (numbered_call 3))
                ! logs (Logger_call plain one_info (numbered_call 3)))
        \<le> maxLogs (Logger_call plain one_info (numbered_call 3))"
proof -
  have a: "length (numbered_calls 150) = 100 + 50" by (simp add: numbered_calls_def)
  have b: "logs one_info < length (arrays one_info)
      \<and> length (arrays one_info ! logs one_info) \<le> maxLogs one_info"
    by (simp add: one_info_eq)
  from a b log_history_bounded_fifo
    [of "plain" "numbered_calls 150" "''localhost''" one_info "numbered_call 3"]
  show ?thesis by blast
qed

text \<open>
  Claim C9, as amended. \<open>getLogs()\<close> and \<open>getLogsByLevel(level)\<close> return a new array
  holding the (matching) entries of the history and leave the history as it was. Whatever
  elements the caller puts into the returned array afterwards, the history stays as it was.
  The entries are shared: after the caller has assigned to the fields of an entry \<open>e\<close>, the
  history shows the new contents wherever it refers to \<open>e\<close>.
\<close>

theorem getLogs_is_shallow_copy:
  "logs lg < length (arrays lg) \<longrightarrow>
     arrays (snd (Logger_getLogs lg)) ! fst (Logger_getLogs lg) = arrays lg ! logs lg
     \<and> history (snd (Logger_getLogs lg)) = history lg
     \<and> history (caller_sets_array (fst (Logger_getLogs lg)) xs (snd (Logger_getLogs lg)))
         = history lg
     \<and> history (caller_sets_entry e new (snd (Logger_getLogs lg)))
         = map (\<lambda>x. (entries lg)[e := new] ! x) (arrays lg ! logs lg)
     \<and> arrays (snd (Logger_getLogsByLevel lvl lg)) ! fst (Logger_getLogsByLevel lvl lg)
         = filter (\<lambda>x. level (entries lg ! x) = lvl) (arrays lg ! logs lg)
     \<and> history (snd (Logger_getLogsByLevel lvl lg)) = history lg
     \<and> history (caller_sets_array (fst (Logger_getLogsByLevel lvl lg)) xs
                  (snd (Logger_getLogsByLevel lvl lg)))
         = history lg
     \<and> history (caller_sets_entry e new (snd (Logger_getLogsByLevel lvl lg)))
         = map (\<lambda>x. (entries lg)[e := new] ! x) (arrays lg ! logs lg)"
  by (simp add: Logger_getLogs_def Logger_getLogsByLevel_def history_def caller_sets_array_def
      caller_sets_entry_def nth_append nth_list_update)

theorem getLogs_is_shallow_copy_witness:
  "logs one_info < length (arrays one_info)
   \<and> arrays (snd (Logger_getLogs one_info)) ! fst (Logger_getLogs one_info) = [0]
   \<and> history (caller_sets_array (fst (Logger_getLogs one_info)) [] (snd (Logger_getLogs one_info)))
       = history one_info
   \<and> history (caller_sets_array (fst (Logger_getLogsByLevel INFO one_info)) []
                (snd (Logger_getLogsByLevel INFO one_info)))
       = history one_info"
proof -
  have a: "logs one_info < length (arrays one_info)" by (simp add: one_info_eq)
  have b: "arrays one_info ! logs one_info = [0]" by (simp add: one_info_eq)
  from a b getLogs_is_shallow_copy [of one_info "[]" 0 "entries one_info ! 0" INFO]
  show ?thesis by simp
qed

text \<open>
  Counterexample to claim C9 as stated: after one \<open>info('Test')\<close>, a caller that runs
  \<open>getLogs()[0].message = 'changed'\<close> (or the same on \<open>getLogsByLevel('INFO')\<close>) has
  changed the message of the entry in the logger's own history.
\<close>

theorem getLogs_entries_shared_counterexample:
  "arrays (snd (Logger_getLogs one_info)) ! fst (Logger_getLogs one_info) = [0]
   \<and> map message (history one_info) = [''Test'']
   \<and> map message
        (history (caller_sets_entry 0 ((entries one_info ! 0)\<lparr>message := ''changed''\<rparr>)
                   (snd (Logger_getLogs one_info))))
       = [''changed'']
   \<and> arrays (snd (Logger_getLogsByLevel INFO one_info)) ! fst (Logger_getLogsByLevel INFO one_info)
       = [0]
   \<and> map message
        (history (caller_sets_entry 0 ((entries one_info ! 0)\<lparr>message := ''changed''\<rparr>)
                   (snd (Logger_getLogsByLevel INFO one_info))))
       = [''changed'']"
  by (simp add: one_info_eq Logger_getLogs_def Logger_getLogsByLevel_def history_def
      caller_sets_entry_def)

section \<open>Properties of the performance monitor\<close>

text \<open>
  Claim C8, as amended. When no mark is recorded for \<open>name\<close>, \<open>endMeasure(name)\<close>
  returns \<open>null\<close> and leaves the monitor, its recorded durations included, as it was (it
  cannot raise: everything after the first test runs inside \<open>try\<close>). It logs the warning
  exactly when the Performance API is supported. No mark is recorded in a new monitor, nor
  for a name whose measurement \<open>endMeasure\<close> has just completed.
\<close>

theorem endMeasure_without_start:
  "(map_of (marks pm) name = None \<longrightarrow>
      endMeasure api name pm =
        (None,
         (if isSupported pm then [(WARN, ''No start mark found for: '' @ name, NoData)] else []),
         pm)
      \<and> recorded name (snd (snd (endMeasure api name pm))) = recorded name pm)
   \<and> map_of (marks (PerformanceMonitor_new supported :: 'd PerformanceMonitor)) name = None
   \<and> (isSupported pm \<and> measure_outcome api = Inr d \<longrightarrow>
        map_of (marks (snd (snd (endMeasure api name pm)))) name = None)"
  by (simp add: endMeasure_def PerformanceMonitor_new_def delete_conv' split: option.splits)

theorem endMeasure_without_start_witness:
  "map_of (marks (PerformanceMonitor_new True :: nat PerformanceMonitor)) ''non-existent'' = None
   \<and> endMeasure five_ms ''non-existent'' (PerformanceMonitor_new True)
       = (None, [(WARN, ''No start mark found for: non-existent'', NoData)],
          PerformanceMonitor_new True)
   \<and> recorded ''non-existent''
        (snd (snd (endMeasure five_ms ''non-existent'' (PerformanceMonitor_new True)))) = []
   \<and> isSupported (snd (startMeasure five_ms ''op'' (PerformanceMonitor_new True)))
   \<and> measure_outcome five_ms = Inr 5
   \<and> fst (endMeasure five_ms ''op'' (snd (startMeasure five_ms ''op'' (PerformanceMonitor_new True))))
       = Some 5
   \<and> fst (endMeasure five_ms ''op''
        (snd (snd (endMeasure five_ms ''op''
           (snd (startMeasure five_ms ''op'' (PerformanceMonitor_new True)))))))
       = None
   \<and> fst (snd (endMeasure five_ms ''op''
        (snd (snd (endMeasure five_ms ''op''
           (snd (startMeasure five_ms ''op'' (PerformanceMonitor_new True))))))))
       = [(WARN, ''No start mark found for: op'', NoData)]"
proof -
  let ?new = "PerformanceMonitor_new True :: nat PerformanceMonitor"
  let ?started = "snd (startMeasure five_ms ''op'' ?new)"
  let ?ended = "snd (snd (endMeasure five_ms ''op'' ?started))"
  have a: "map_of (marks ?new) ''non-existent'' = None"
    by (simp add: PerformanceMonitor_new_def)
  have b: "isSupported ?new" by (simp add: PerformanceMonitor_new_def)
  have c: "recorded ''non-existent'' ?new = []"
    by (simp add: PerformanceMonitor_new_def recorded_def)
  have d: "isSupported ?started \<and> measure_outcome five_ms = Inr 5"
    by (simp add: startMeasure_def PerformanceMonitor_new_def five_ms_def)
  have e: "fst (endMeasure five_ms ''op'' ?started) = Some 5"
    by (simp add: startMeasure_def endMeasure_def PerformanceMonitor_new_def five_ms_def)
  have f: "isSupported ?ended"
    by (simp add: startMeasure_def endMeasure_def PerformanceMonitor_new_def five_ms_def)
  from d endMeasure_without_start [of "?started" "''op''" five_ms True 5]
  have g: "map_of (marks ?ended) ''op'' = None" by blast
  from g endMeasure_without_start [of "?ended" "''op''" five_ms True 5]
  have h0: "endMeasure five_ms ''op'' ?ended
      = (None,
         (if isSupported ?ended then [(WARN, ''No start mark found for: '' @ ''op'', NoData)]
          else []),
         ?ended)" by blast
  have h: "fst (endMeasure five_ms ''op'' ?ended) = None
      \<and> fst (snd (endMeasure five_ms ''op'' ?ended))
          = [(WARN, ''No start mark found for: op'', NoData)]"
    unfolding h0 using f by simp
  from a endMeasure_without_start [of "?new" "''non-existent''" five_ms True 5]
  have i0: "endMeasure five_ms ''non-existent'' ?new
       = (None,
          (if isSupported ?new
           then [(WARN, ''No start mark found for: '' @ ''non-existent'', NoData)] else []),
          ?new)"
    by blast
  have i: "endMeasure five_ms ''non-existent'' ?new
       = (None, [(WARN, ''No start mark found for: non-existent'', NoData)], ?new)
     \<and> recorded ''non-existent'' (snd (snd (endMeasure five_ms ''non-existent'' ?new))) = []"
    unfolding i0 using b c by simp
  from a d e h i show ?thesis by blast
qed

text \<open>
  Counterexample to claim C8 as stated: where the Performance API is not supported,
  \<open>endMeasure\<close> without a start returns \<open>null\<close> and logs nothing.
\<close>

theorem endMeasure_unsupported_no_warning:
  "map_of (marks (PerformanceMonitor_new False :: nat PerformanceMonitor)) ''non-existent'' = None
   \<and> endMeasure five_ms ''non-existent'' (PerformanceMonitor_new False)
       = (None, [], PerformanceMonitor_new False)"
  by (simp add: endMeasure_def PerformanceMonitor_new_def)


end
